theory Spec2Isabelle
  imports Complex_Main "HOL-Library.Word"
begin

unbundle bit_operations_syntax

section \<open>Machine types and constants of kimg.c\<close>

type_synonym u8 = "8 word"
type_synonym u16 = "16 word"

definition MAX_PALETTE_SIZE :: nat where
  "MAX_PALETTE_SIZE = 16"

definition MAX_COL_BYTES :: nat where
  "MAX_COL_BYTES = 40"

definition MAX_ROWS :: nat where
  "MAX_ROWS = 200"

definition MAX_IMAGE_SIZE :: nat where
  "MAX_IMAGE_SIZE = MAX_COL_BYTES * 8 * MAX_ROWS"

definition MAX_CARDS :: nat where
  "MAX_CARDS = 4"

definition CARD_MEMORY_SIZE :: nat where
  "CARD_MEMORY_SIZE = 8192"

section \<open>Arrays\<close>

text \<open>
  A C array is a list. A read outside the array has no defined value in C; the
  model makes it the outcome \<open>None\<close> of the function that performs it.
\<close>

definition rd :: "'a list \<Rightarrow> nat \<Rightarrow> 'a option" where
  "rd xs i = (if i < length xs then Some (xs ! i) else None)"

section \<open>The output stream\<close>

text \<open>
  The output \<open>FILE\<close> is the text written so far together with the room left on the
  device. A write that does not fit fails as a whole (\<open>fprintf\<close> returns a negative
  value, \<open>fputs\<close> returns \<open>EOF\<close>) and leaves the stream as it was; this is how the
  error branches of the writers are reached.
\<close>

record FILE =
  written :: string
  room :: nat

definition fprintf :: "FILE \<Rightarrow> string \<Rightarrow> bool \<times> FILE" where
  "fprintf f s =
     (if length s \<le> room f
      then (True, f\<lparr>written := written f @ s, room := room f - length s\<rparr>)
      else (False, f))"

text \<open>
  The conversion \<open>%p.pX\<close> of \<open>printf\<close>: the value in upper-case hexadecimal, most
  significant digit first, padded with zeros to at least \<open>p\<close> digits.
\<close>

definition hex_digit :: "nat \<Rightarrow> char" where
  "hex_digit d = ''0123456789ABCDEF'' ! (d mod 16)"

function to_hex :: "nat \<Rightarrow> string" where
  "to_hex n = (if n < 16 then [hex_digit n] else to_hex (n div 16) @ [hex_digit n])"
  by pat_completeness auto
termination
  by (relation "measure id") auto

declare to_hex.simps [simp del]

definition fmt_X :: "nat \<Rightarrow> nat \<Rightarrow> string" where
  "fmt_X p n = replicate (p - length (to_hex n)) (CHR ''0'') @ to_hex n"

section \<open>ihex.c\<close>

text \<open>
  In both writers \<open>byte_num\<close> is an \<open>int\<close> of 32 bits, compared with the \<open>size_t\<close>
  \<open>data_size\<close>. Incrementing it at \<open>INT_MAX\<close> is undefined: the loops give \<open>None\<close>
  there, as they do for a read outside \<open>data\<close>.
\<close>

definition INT_MAX :: nat where
  "INT_MAX = 2147483647"

definition ihex_terminate :: "FILE \<Rightarrow> u16 \<Rightarrow> bool \<times> FILE" where
  "ihex_terminate output_file lines = fprintf output_file '':00000001FF\<newline>''"

text \<open>
  The block of \<open>ihex_write\<close> that opens a record when \<open>byte_num\<close> is a multiple of
  \<open>BYTES_PER_LINE\<close> (32). \<open>Inl\<close> is the early \<open>return 0\<close>; \<open>Inr\<close> carries the stream,
  the fresh checksum and the incremented line count on.
\<close>

definition ihex_new_line ::
  "FILE \<Rightarrow> nat \<Rightarrow> nat \<Rightarrow> u16 \<Rightarrow> u8 \<Rightarrow> u16 \<Rightarrow> (u16 \<times> FILE) + (FILE \<times> u8 \<times> u16)" where
  "ihex_new_line f data_size byte_num address checksum lines =
     (case (if byte_num \<noteq> 0
            then fprintf f (fmt_X 2 (unat (NOT checksum + 1)) @ ''\<newline>'')
            else (True, f)) of
        (False, f1) \<Rightarrow> Inl (0, f1)
      | (True, f1) \<Rightarrow>
          (let bytes_in_line = (word_of_nat (if data_size - byte_num > 32 then 32
                                             else data_size - byte_num) :: u8);
               checksum1 = bytes_in_line + ucast (drop_bit 8 address AND 0xFF)
                             + ucast (address AND 0xFF) + 0x00
           in case fprintf f1 ('':'' @ fmt_X 2 (unat bytes_in_line)
                                 @ fmt_X 4 (unat address) @ ''00'') of
                (False, f2) \<Rightarrow> Inl (0, f2)
              | (True, f2) \<Rightarrow> Inr (f2, checksum1, lines + 1)))"

function ihex_write_loop ::
  "FILE \<Rightarrow> u8 list \<Rightarrow> nat \<Rightarrow> nat \<Rightarrow> u16 \<Rightarrow> u8 \<Rightarrow> u16 \<Rightarrow> (u16 \<times> FILE) option" where
  "ihex_write_loop f data data_size byte_num address checksum lines =
     (if byte_num < data_size then
        (case (if byte_num mod 32 = 0
               then ihex_new_line f data_size byte_num address checksum lines
               else Inr (f, checksum, lines)) of
           Inl r \<Rightarrow> Some r
         | Inr (f1, checksum1, lines1) \<Rightarrow>
             (case rd data byte_num of
                None \<Rightarrow> None
              | Some d \<Rightarrow>
                  (case fprintf f1 (fmt_X 2 (unat d)) of
                     (False, f2) \<Rightarrow> Some (0, f2)
                   | (True, f2) \<Rightarrow>
                       if byte_num = INT_MAX then None
                       else ihex_write_loop f2 data data_size (byte_num + 1) (address + 1)
                              (checksum1 + d) lines1)))
      else
        (case fprintf f (fmt_X 2 (unat (NOT checksum + 1)) @ ''\<newline>'') of
           (False, f1) \<Rightarrow> Some (0, f1)
         | (True, f1) \<Rightarrow> Some (lines, f1)))"
  by pat_completeness auto
termination
  by (relation "measure (\<lambda>(f, data, data_size, byte_num, address, checksum, lines).
                  data_size - byte_num)") auto

declare ihex_write_loop.simps [simp del]

definition ihex_write :: "FILE \<Rightarrow> u16 \<Rightarrow> u8 list \<Rightarrow> nat \<Rightarrow> (u16 \<times> FILE) option" where
  "ihex_write output_file address data data_size =
     ihex_write_loop output_file data data_size 0 address 0 0"

section \<open>pap.c\<close>

definition pap_terminate :: "FILE \<Rightarrow> u16 \<Rightarrow> bool \<times> FILE" where
  "pap_terminate output_file lines =
     fprintf output_file
       ('';00'' @ fmt_X 4 (unat lines)
          @ fmt_X 4 (unat (drop_bit 8 lines AND 0xFF) + unat (lines AND 0xFF)) @ ''\<newline>'')"

definition pap_new_line ::
  "FILE \<Rightarrow> nat \<Rightarrow> nat \<Rightarrow> u16 \<Rightarrow> u16 \<Rightarrow> u16 \<Rightarrow> (u16 \<times> FILE) + (FILE \<times> u16 \<times> u16)" where
  "pap_new_line f data_size byte_num address checksum lines =
     (case (if byte_num \<noteq> 0
            then fprintf f (fmt_X 4 (unat checksum) @ ''\<newline>'')
            else (True, f)) of
        (False, f1) \<Rightarrow> Inl (0, f1)
      | (True, f1) \<Rightarrow>
          (let bytes_in_line = (word_of_nat (if data_size - byte_num > 24 then 24
                                             else data_size - byte_num) :: u8);
               checksum1 = ucast bytes_in_line + (drop_bit 8 address AND 0xFF)
                             + (address AND 0xFF)
           in case fprintf f1 ('';'' @ fmt_X 2 (unat bytes_in_line)
                                 @ fmt_X 4 (unat address)) of
                (False, f2) \<Rightarrow> Inl (0, f2)
              | (True, f2) \<Rightarrow> Inr (f2, checksum1, lines + 1)))"

function pap_write_loop ::
  "FILE \<Rightarrow> u8 list \<Rightarrow> nat \<Rightarrow> nat \<Rightarrow> u16 \<Rightarrow> u16 \<Rightarrow> u16 \<Rightarrow> (u16 \<times> FILE) option" where
  "pap_write_loop f data data_size byte_num address checksum lines =
     (if byte_num < data_size then
        (case (if byte_num mod 24 = 0
               then pap_new_line f data_size byte_num address checksum lines
               else Inr (f, checksum, lines)) of
           Inl r \<Rightarrow> Some r
         | Inr (f1, checksum1, lines1) \<Rightarrow>
             (case rd data byte_num of
                None \<Rightarrow> None
              | Some d \<Rightarrow>
                  (case fprintf f1 (fmt_X 2 (unat d)) of
                     (False, f2) \<Rightarrow> Some (0, f2)
                   | (True, f2) \<Rightarrow>
                       if byte_num = INT_MAX then None
                       else pap_write_loop f2 data data_size (byte_num + 1) (address + 1)
                              (checksum1 + ucast d) lines1)))
      else
        (case fprintf f (fmt_X 4 (unat checksum) @ ''\<newline>'') of
           (False, f1) \<Rightarrow> Some (0, f1)
         | (True, f1) \<Rightarrow> Some (lines, f1)))"
  by pat_completeness auto
termination
  by (relation "measure (\<lambda>(f, data, data_size, byte_num, address, checksum, lines).
                  data_size - byte_num)") auto

declare pap_write_loop.simps [simp del]

definition pap_write :: "FILE \<Rightarrow> u16 \<Rightarrow> u8 list \<Rightarrow> nat \<Rightarrow> (u16 \<times> FILE) option" where
  "pap_write output_file address data data_size =
     pap_write_loop output_file data data_size 0 address 0 0"

section \<open>kimg.c: conversion to bit planes\<close>

text \<open>
  \<open>convert_to_layers\<close> has four nested loops. The two inner ones count an \<open>int\<close> up
  to a bound and are total. \<open>x\<close> and \<open>y\<close> are \<open>uint16_t\<close>: \<open>++y\<close> cannot wrap below
  \<open>y_size\<close>, but \<open>x += 8\<close> wraps at 65536, so the loop over \<open>x\<close> need not end when
  \<open>x_size\<close> exceeds 65528; it is a partial function, \<open>None\<close> where it does not
  return or where it reads outside an array. A store outside an array leaves the
  array as it is (the byte lands in memory the model does not describe); the
  \<open>|=\<close> that follows reads the same place and is \<open>None\<close>.
  \<open>color_bits\<close> is an \<open>int\<close> that only bounds a loop from 0, so a natural number
  stands for it (a negative value behaves as 0). The \<open>printf\<close> of the plane count to
  the standard output is left out.
\<close>

function pixel_loop ::
  "u8 list \<Rightarrow> u8 list \<Rightarrow> nat \<Rightarrow> nat \<Rightarrow> nat \<Rightarrow> nat \<Rightarrow> nat \<Rightarrow> nat \<Rightarrow> u8 list option" where
  "pixel_loop raw binary conv_byte cbit x_size y x pixel =
     (if pixel < 8 \<and> x + pixel < x_size then
        (case rd raw (y * x_size + x + pixel) of
           None \<Rightarrow> None
         | Some v \<Rightarrow>
             (case rd binary (conv_byte + CARD_MEMORY_SIZE * cbit) of
                None \<Rightarrow> None
              | Some old \<Rightarrow>
                  pixel_loop raw
                    (binary[conv_byte + CARD_MEMORY_SIZE * cbit :=
                       old OR push_bit (7 - pixel) (drop_bit cbit v AND 1)])
                    conv_byte cbit x_size y x (pixel + 1)))
      else Some binary)"
  by pat_completeness auto
termination
  by (relation "measure (\<lambda>(raw, binary, conv_byte, cbit, x_size, y, x, pixel). 8 - pixel)") auto

declare pixel_loop.simps [simp del]

function cbit_loop ::
  "u8 list \<Rightarrow> u8 list \<Rightarrow> nat \<Rightarrow> nat \<Rightarrow> nat \<Rightarrow> nat \<Rightarrow> nat \<Rightarrow> nat \<Rightarrow> nat
     \<Rightarrow> (u8 list \<times> nat) option" where
  "cbit_loop raw binary conv_byte data_size color_bits x_size y x cbit =
     (if cbit < color_bits then
        (case pixel_loop raw (binary[conv_byte + CARD_MEMORY_SIZE * cbit := 0])
                conv_byte cbit x_size y x 0 of
           None \<Rightarrow> None
         | Some binary1 \<Rightarrow>
             cbit_loop raw binary1 conv_byte (data_size + 1) color_bits x_size y x (cbit + 1))
      else Some (binary, data_size))"
  by pat_completeness auto
termination
  by (relation "measure (\<lambda>(raw, binary, conv_byte, data_size, color_bits, x_size, y, x, cbit).
                  color_bits - cbit)") auto

declare cbit_loop.simps [simp del]

partial_function (option) x_loop ::
  "u8 list \<Rightarrow> u8 list \<Rightarrow> nat \<Rightarrow> nat \<Rightarrow> nat \<Rightarrow> nat \<Rightarrow> nat \<Rightarrow> nat
     \<Rightarrow> (u8 list \<times> nat \<times> nat) option" where
  "x_loop raw binary conv_byte data_size color_bits x_size y x =
     (if x < x_size then
        Option.bind (cbit_loop raw binary conv_byte data_size color_bits x_size y x 0)
          (\<lambda>(binary1, data_size1).
             x_loop raw binary1 (conv_byte + 1) data_size1 color_bits x_size y
               ((x + 8) mod 65536))
      else Some (binary, conv_byte, data_size))"

declare x_loop.simps [code]

function y_loop ::
  "u8 list \<Rightarrow> u8 list \<Rightarrow> nat \<Rightarrow> nat \<Rightarrow> nat \<Rightarrow> nat \<Rightarrow> nat \<Rightarrow> nat
     \<Rightarrow> (u8 list \<times> nat) option" where
  "y_loop raw binary conv_byte data_size color_bits x_size y_size y =
     (if y < y_size then
        (case x_loop raw binary conv_byte data_size color_bits x_size y 0 of
           None \<Rightarrow> None
         | Some (binary1, conv_byte1, data_size1) \<Rightarrow>
             y_loop raw binary1 conv_byte1 data_size1 color_bits x_size y_size (y + 1))
      else Some (binary, data_size))"
  by pat_completeness auto
termination
  by (relation "measure (\<lambda>(raw, binary, conv_byte, data_size, color_bits, x_size, y_size, y).
                  y_size - y)") auto

declare y_loop.simps [simp del]

definition convert_to_layers ::
  "u8 list \<Rightarrow> u8 list \<Rightarrow> nat \<Rightarrow> nat \<Rightarrow> nat \<Rightarrow> (u8 list \<times> nat) option" where
  "convert_to_layers raw binary color_bits x_size y_size =
     y_loop raw binary 0 0 color_bits x_size y_size 0"

section \<open>kimg.c: output in a hex format\<close>

text \<open>
  \<open>output_hex\<close> receives the writer and the terminator as function pointers.
  \<open>data + n\<close> is the array from its \<open>n\<close>-th element on. \<open>cbit_offset\<close> and
  \<open>line_offset\<close> are \<open>uint16_t\<close>, and the address handed to the writer is converted
  to \<open>uint16_t\<close>: 16-bit words. \<open>fopen\<close> is the file system's answer for the output
  file name: \<open>None\<close> when the file cannot be opened. The result is the returned
  \<open>bool\<close> with the stream as it was closed.
\<close>

type_synonym hex_write_fn = "FILE \<Rightarrow> u16 \<Rightarrow> u8 list \<Rightarrow> nat \<Rightarrow> (u16 \<times> FILE) option"
type_synonym hex_terminate_fn = "FILE \<Rightarrow> u16 \<Rightarrow> bool \<times> FILE"

record options_t =
  base_address :: u16
  output_filename :: string

function output_hex_rows ::
  "hex_write_fn \<Rightarrow> FILE \<Rightarrow> u8 list \<Rightarrow> options_t \<Rightarrow> u16 \<Rightarrow> nat \<Rightarrow> nat \<Rightarrow> nat \<Rightarrow> u16
     \<Rightarrow> (bool \<times> u16 \<times> FILE) option" where
  "output_hex_rows write_fn output_file data options cbit_offset x_size y_size linenum lines =
     (if linenum < y_size then
        (let line_offset = (word_of_nat (linenum * MAX_COL_BYTES) :: u16) in
         case write_fn output_file (base_address options + cbit_offset + line_offset)
                (drop (unat cbit_offset + linenum * ((x_size + 7) div 8)) data)
                ((x_size + 7) div 8) of
           None \<Rightarrow> None
         | Some (retlines, output_file1) \<Rightarrow>
             if retlines = 0 then Some (False, lines, output_file1)
             else output_hex_rows write_fn output_file1 data options cbit_offset x_size y_size
                    (linenum + 1) (lines + retlines))
      else Some (True, lines, output_file))"
  by pat_completeness auto
termination
  by (relation "measure (\<lambda>(write_fn, output_file, data, options, cbit_offset, x_size, y_size,
                  linenum, lines). y_size - linenum)") auto

declare output_hex_rows.simps [simp del]

function output_hex_planes ::
  "hex_write_fn \<Rightarrow> FILE \<Rightarrow> u8 list \<Rightarrow> options_t \<Rightarrow> nat \<Rightarrow> nat \<Rightarrow> nat \<Rightarrow> nat \<Rightarrow> nat \<Rightarrow> u16
     \<Rightarrow> (bool \<times> u16 \<times> FILE) option" where
  "output_hex_planes write_fn output_file data options data_size color_bits x_size y_size
       cbit lines =
     (if cbit < color_bits then
        (let cbit_offset = (word_of_nat (cbit * CARD_MEMORY_SIZE) :: u16) in
         if x_size > (MAX_COL_BYTES - 1) * 8 then
           (case write_fn output_file (base_address options + cbit_offset)
                   (drop (unat cbit_offset) data) data_size of
              None \<Rightarrow> None
            | Some (retlines, output_file1) \<Rightarrow>
                if retlines = 0 then Some (False, lines, output_file1)
                else output_hex_planes write_fn output_file1 data options data_size color_bits
                       x_size y_size (cbit + 1) (lines + retlines))
         else
           (case output_hex_rows write_fn output_file data options cbit_offset x_size y_size
                   0 lines of
              None \<Rightarrow> None
            | Some (False, lines1, output_file1) \<Rightarrow> Some (False, lines1, output_file1)
            | Some (True, lines1, output_file1) \<Rightarrow>
                output_hex_planes write_fn output_file1 data options data_size color_bits
                  x_size y_size (cbit + 1) lines1))
      else Some (True, lines, output_file))"
  by pat_completeness auto
termination
  by (relation "measure (\<lambda>(write_fn, output_file, data, options, data_size, color_bits, x_size,
                  y_size, cbit, lines). color_bits - cbit)") auto

declare output_hex_planes.simps [simp del]

definition output_hex ::
  "hex_write_fn \<Rightarrow> hex_terminate_fn \<Rightarrow> (string \<Rightarrow> FILE option) \<Rightarrow> u8 list \<Rightarrow> options_t
     \<Rightarrow> nat \<Rightarrow> nat \<Rightarrow> nat \<Rightarrow> nat \<Rightarrow> (bool \<times> FILE option) option" where
  "output_hex write_fn terminate_fn fopen data options data_size color_bits x_size y_size =
     (case fopen (output_filename options) of
        None \<Rightarrow> Some (False, None)
      | Some output_file \<Rightarrow>
          (case output_hex_planes write_fn output_file data options data_size color_bits
                  x_size y_size 0 0 of
             None \<Rightarrow> None
           | Some (False, lines, output_file1) \<Rightarrow> Some (False, Some output_file1)
           | Some (True, lines, output_file1) \<Rightarrow>
               (case terminate_fn output_file1 lines of
                  (result, output_file2) \<Rightarrow> Some (result, Some output_file2))))"

definition output_ihex ::
  "(string \<Rightarrow> FILE option) \<Rightarrow> u8 list \<Rightarrow> options_t \<Rightarrow> nat \<Rightarrow> nat \<Rightarrow> nat \<Rightarrow> nat
     \<Rightarrow> (bool \<times> FILE option) option" where
  "output_ihex fopen data options data_size color_bits x_size y_size =
     output_hex ihex_write ihex_terminate fopen data options data_size color_bits x_size y_size"

definition output_pap ::
  "(string \<Rightarrow> FILE option) \<Rightarrow> u8 list \<Rightarrow> options_t \<Rightarrow> nat \<Rightarrow> nat \<Rightarrow> nat \<Rightarrow> nat
     \<Rightarrow> (bool \<times> FILE option) option" where
  "output_pap fopen data options data_size color_bits x_size y_size =
     output_hex pap_write pap_terminate fopen data options data_size color_bits x_size y_size"

section \<open>The serializers write the records of the specification\<close>

subsection \<open>Writing to the stream\<close>

definition put :: "FILE \<Rightarrow> string \<Rightarrow> FILE" where
  "put f s = f\<lparr>written := written f @ s, room := room f - length s\<rparr>"

lemma fprintf_fits: "length s \<le> room f \<Longrightarrow> fprintf f s = (True, put f s)"
  by (simp add: fprintf_def put_def)

lemma fprintf_full: "room f < length s \<Longrightarrow> fprintf f s = (False, f)"
  by (simp add: fprintf_def)

lemma put_put: "length s \<le> room f \<Longrightarrow> put (put f s) t = put f (s @ t)"
  by (simp add: put_def)

lemma put_Nil: "put f [] = f"
  by (simp add: put_def)

lemma room_put: "room (put f s) = room f - length s"
  by (simp add: put_def)

lemma written_put: "written (put f s) = written f @ s"
  by (simp add: put_def)

lemma length_to_hex_16: "n < 16 \<Longrightarrow> length (to_hex n) = 1"
  by (subst to_hex.simps) simp

lemma length_to_hex_256: "n < 256 \<Longrightarrow> length (to_hex n) \<le> 2"
  by (subst to_hex.simps) (simp add: length_to_hex_16)

lemma length_to_hex_4096: "n < 4096 \<Longrightarrow> length (to_hex n) \<le> 3"
  using length_to_hex_256 [of "n div 16"] by (subst to_hex.simps) simp

lemma length_to_hex_65536: "n < 65536 \<Longrightarrow> length (to_hex n) \<le> 4"
  using length_to_hex_4096 [of "n div 16"] by (subst to_hex.simps) simp

lemma length_fmt_X: "length (to_hex n) \<le> p \<Longrightarrow> length (fmt_X p n) = p"
  by (simp add: fmt_X_def)

lemma length_fmt_X_2: "n < 256 \<Longrightarrow> length (fmt_X 2 n) = 2"
  by (simp add: length_fmt_X length_to_hex_256)

lemma length_fmt_X_4: "n < 65536 \<Longrightarrow> length (fmt_X 4 n) = 4"
  by (simp add: length_fmt_X length_to_hex_65536)

lemma unat_u8_less: "unat (w :: u8) < 256"
  using unsigned_less [of w, where ?'a = nat] by simp

lemma unat_u16_less: "unat (w :: u16) < 65536"
  using unsigned_less [of w, where ?'a = nat] by simp

lemma length_fmt_X_u8 [simp]: "length (fmt_X 2 (unat (w :: u8))) = 2"
  by (simp add: length_fmt_X_2 unat_u8_less)

lemma length_fmt_X_u16 [simp]: "length (fmt_X 4 (unat (w :: u16))) = 4"
  by (simp add: length_fmt_X_4 unat_u16_less)

definition hex_bytes :: "u8 list \<Rightarrow> string" where
  "hex_bytes bs = concat (map (\<lambda>b. fmt_X 2 (unat b)) bs)"

lemma length_hex_bytes [simp]: "length (hex_bytes bs) = 2 * length bs"
  by (induction bs) (simp_all add: hex_bytes_def)

lemma hex_bytes_Cons: "hex_bytes (b # bs) = fmt_X 2 (unat b) @ hex_bytes bs"
  by (simp add: hex_bytes_def)

lemma hex_bytes_Nil [simp]: "hex_bytes [] = []"
  by (simp add: hex_bytes_def)

lemma take_Suc_drop: "i < length xs \<Longrightarrow> take (Suc j) (drop i xs) = xs ! i # take j (drop (Suc i) xs)"
  by (simp add: Cons_nth_drop_Suc [symmetric])

lemma ihex_run:
  "i + j \<le> n \<Longrightarrow> n \<le> length data \<Longrightarrow> (\<forall>k. i \<le> k \<and> k < i + j \<longrightarrow> k mod 32 \<noteq> 0) \<Longrightarrow>
   n \<le> INT_MAX \<Longrightarrow>
   (2 * j \<le> room f \<longrightarrow>
      ihex_write_loop f data n i a c l =
      ihex_write_loop (put f (hex_bytes (take j (drop i data)))) data n (i + j)
        (a + word_of_nat j) (c + sum_list (take j (drop i data))) l) \<and>
   (room f < 2 * j \<longrightarrow> (\<exists>f'. ihex_write_loop f data n i a c l = Some (0, f')))"
proof (induction j arbitrary: i f a c)
  case 0
  then show ?case by (simp add: put_Nil)
next
  case (Suc j)
  have i: "i < n" "i < length data" "i mod 32 \<noteq> 0" "i \<noteq> INT_MAX"
    using Suc.prems by auto
  have rest: "Suc i + j \<le> n" "\<forall>k. Suc i \<le> k \<and> k < Suc i + j \<longrightarrow> k mod 32 \<noteq> 0"
    using Suc.prems by auto
  note IH = Suc.IH [OF rest(1) Suc.prems(2) rest(2) Suc.prems(4)]
  show ?case
  proof (cases "2 \<le> room f")
    case False
    then have "fprintf f (fmt_X 2 (unat (data ! i))) = (False, f)"
      by (simp add: fprintf_full)
    with i False show ?thesis
      by (subst ihex_write_loop.simps) (simp add: rd_def)
  next
    case True
    let ?f = "put f (fmt_X 2 (unat (data ! i)))"
    have step: "ihex_write_loop f data n i a c l =
                ihex_write_loop ?f data n (Suc i) (a + 1) (c + data ! i) l"
      using i True by (subst ihex_write_loop.simps) (simp add: rd_def fprintf_fits)
    have room: "room ?f = room f - 2"
      by (simp add: room_put)
    show ?thesis
      using IH [of ?f "a + 1" "c + data ! i"] True i
      by (simp add: step room put_put take_Suc_drop hex_bytes_Cons add.assoc) 
  qed 
qed


definition hi_byte :: "u16 \<Rightarrow> nat" where
  "hi_byte a = unat a div 256"

definition lo_byte :: "u16 \<Rightarrow> nat" where
  "lo_byte a = unat a mod 256"

definition byte_sum :: "u8 list \<Rightarrow> nat" where
  "byte_sum bs = sum_list (map unat bs)"

definition ihex_checksum :: "u16 \<Rightarrow> u8 list \<Rightarrow> nat" where
  "ihex_checksum a bs =
     (256 - (length bs + hi_byte a + lo_byte a + byte_sum bs) mod 256) mod 256"

definition ihex_record :: "u16 \<Rightarrow> u8 list \<Rightarrow> string" where
  "ihex_record a bs =
     '':'' @ fmt_X 2 (length bs) @ fmt_X 4 (unat a) @ ''00'' @ hex_bytes bs
       @ fmt_X 2 (ihex_checksum a bs) @ ''\<newline>''"

lemma mask8: "(0xFF :: 'a::len word) = mask 8"
  by (simp add: mask_eq_exp_minus_1)

lemma word_of_unat_eq: "unat (w :: 'a::len word) = n \<Longrightarrow> w = word_of_nat n"
  by auto

lemma ucast_lo: "(ucast (a AND 0xFF) :: u8) = word_of_nat (unat a mod 256)"
  for a :: u16
proof -
  have "unat (ucast (a AND 0xFF) :: u8) = unat a mod 256"
    by (simp only: mask8 flip: take_bit_eq_mask) (simp add: unsigned_ucast_eq unsigned_take_bit_eq take_bit_eq_mod unat_mod)
  then show ?thesis
    by (rule word_of_unat_eq)
qed

lemma ucast_hi: "(ucast (drop_bit 8 a AND 0xFF) :: u8) = word_of_nat (unat a div 256)"
  for a :: u16
proof -
  have "unat (ucast (drop_bit 8 a AND 0xFF) :: u8) = (unat a div 256) mod 256"
    by (simp only: mask8 flip: take_bit_eq_mask) (simp add: unsigned_ucast_eq unsigned_take_bit_eq unsigned_drop_bit_eq take_bit_eq_mod drop_bit_eq_div unat_mod unat_div)
  then have "(ucast (drop_bit 8 a AND 0xFF) :: u8) = word_of_nat ((unat a div 256) mod 256)"
    by (rule word_of_unat_eq)
  also have "\<dots> = word_of_nat (unat a div 256)"
    by (simp add: word_of_nat_eq_iff take_bit_eq_mod)
  finally show ?thesis .
qed

lemma neg_of_nat_u8: "NOT (word_of_nat k :: u8) + 1 = word_of_nat (256 - k mod 256)"
proof -
  define q r where "q = k div 256" and "r = k mod 256"
  have "k = 256 * q + r" "r < 256"
    by (simp_all add: q_def r_def)
  then have "256 - r + k = 256 * (1 + q)"
    by simp
  then have "256 - k mod 256 + k = 256 * (1 + k div 256)"
    by (simp only: q_def r_def)
  then have "(word_of_nat (256 - k mod 256 + k) :: u8) = 0"
    by (simp only: word_of_nat_eq_0_iff) simp
  then have "(word_of_nat (256 - k mod 256) :: u8) + word_of_nat k = 0"
    by (simp only: of_nat_add)
  then have "(word_of_nat (256 - k mod 256) :: u8) = - word_of_nat k"
    by (rule iffD2 [OF eq_neg_iff_add_eq_0])
  then show ?thesis
    by (simp only: minus_eq_not_plus_1)
qed

lemma unat_neg_u8: "unat (NOT (word_of_nat k :: u8) + 1) = (256 - k mod 256) mod 256"
  by (simp only: neg_of_nat_u8 unat_of_nat) simp


lemma sum_list_u8: "(sum_list bs :: u8) = word_of_nat (byte_sum bs)"
  by (induction bs) (simp_all add: byte_sum_def)

definition ihex_sum :: "u16 \<Rightarrow> u8 list \<Rightarrow> u8" where
  "ihex_sum a bs = word_of_nat (length bs + hi_byte a + lo_byte a + byte_sum bs)"

definition ihex_head :: "u16 \<Rightarrow> nat \<Rightarrow> string" where
  "ihex_head a m = '':'' @ fmt_X 2 m @ fmt_X 4 (unat a) @ ''00''"

definition ihex_tail :: "u8 \<Rightarrow> string" where
  "ihex_tail c = fmt_X 2 (unat (NOT c + 1)) @ ''\<newline>''"

lemma length_ihex_tail [simp]: "length (ihex_tail c) = 3"
  by (simp add: ihex_tail_def)

lemma length_ihex_head [simp]: "m < 256 \<Longrightarrow> length (ihex_head a m) = 9"
  by (simp add: ihex_head_def length_fmt_X_2)

lemma unat_of_nat_u8: "m < 256 \<Longrightarrow> unat (word_of_nat m :: u8) = m"
  by (simp add: unat_of_nat)

lemma ihex_sum0:
  "(word_of_nat m :: u8) + ucast (drop_bit 8 a AND 0xFF) + ucast (a AND 0xFF) + 0x00 =
   word_of_nat (m + hi_byte a + lo_byte a)"
  by (simp only: ucast_hi) (simp only: ucast_lo hi_byte_def lo_byte_def of_nat_add add_0_right)

lemma ihex_new_line_eq:
  assumes "i < n" and m: "m = min 32 (n - i)"
  shows "ihex_new_line f n i a c l =
     (let pre = (if i \<noteq> 0 then ihex_tail c else []) in
      if room f < length pre then Inl (0, f)
      else if room f < length pre + 9 then Inl (0, put f pre)
      else Inr (put f (pre @ ihex_head a m),
                word_of_nat (m + hi_byte a + lo_byte a), l + 1))"
proof -
  have m32: "m < 256"
    using m by auto
  have bl: "(if 32 < n - i then 32 else n - i) = m"
    using m by auto
  have len: "length (ihex_head a m) = 9"
    using m32 by simp
  have eq: "ihex_new_line f n i a c l =
     (case (if i \<noteq> 0 then fprintf f (ihex_tail c) else (True, f)) of
        (False, f1) \<Rightarrow> Inl (0, f1)
      | (True, f1) \<Rightarrow>
          (case fprintf f1 (ihex_head a m) of
             (False, f2) \<Rightarrow> Inl (0, f2)
           | (True, f2) \<Rightarrow> Inr (f2, word_of_nat (m + hi_byte a + lo_byte a), l + 1)))"
    unfolding ihex_new_line_def bl Let_def ihex_sum0 ihex_tail_def ihex_head_def
      unat_of_nat_u8 [OF m32] by (rule refl)
  show ?thesis
    unfolding eq using len
    by (cases "i = 0") (auto simp add: fprintf_def put_def Let_def)
qed

lemma ihex_line:
  assumes i: "i < n" "n \<le> length data" "i mod 32 = 0" "n \<le> INT_MAX"
    and m: "m = min 32 (n - i)"
    and bs: "bs = take m (drop i data)"
    and pre: "pre = (if i \<noteq> 0 then ihex_tail c else [])"
  shows "(length pre + 9 + 2 * m \<le> room f \<longrightarrow>
            ihex_write_loop f data n i a c l =
            ihex_write_loop (put f (pre @ ihex_head a m @ hex_bytes bs)) data n (i + m)
              (a + word_of_nat m) (ihex_sum a bs) (l + 1)) \<and>
         (room f < length pre + 9 + 2 * m \<longrightarrow>
            (\<exists>f'. ihex_write_loop f data n i a c l = Some (0, f')))"
proof -
  have m1: "0 < m" "m \<le> 32" "i + m \<le> n"
    using i m by auto
  obtain j where j: "m = Suc j"
    using m1(1) by (cases m) auto
  have lenbs: "length bs = m"
    using bs i m by auto
  have bs_eq: "bs = data ! i # take j (drop (Suc i) data)"
    using i by (simp add: bs j take_Suc_drop)
  have nl: "ihex_new_line f n i a c l =
     (if room f < length pre then Inl (0, f)
      else if room f < length pre + 9 then Inl (0, put f pre)
      else Inr (put f (pre @ ihex_head a m), word_of_nat (m + hi_byte a + lo_byte a), l + 1))"
    using ihex_new_line_eq [OF i(1) m] by (simp add: pre Let_def)
  have lenhead: "length (pre @ ihex_head a m) = length pre + 9"
    using m1 by simp
  have run: "\<forall>k. Suc i \<le> k \<and> k < Suc i + j \<longrightarrow> k mod 32 \<noteq> 0"
  proof (intro allI impI)
    fix k assume k: "Suc i \<le> k \<and> k < Suc i + j"
    then have d: "k = i + (k - i)" "0 < k - i" "k - i < 32"
      using m1 j by auto
    have "(i + (k - i)) mod 32 = (i mod 32 + (k - i)) mod 32"
      by (simp only: mod_add_left_eq)
    also have "\<dots> = k - i"
      using d(3) by (simp add: i(3))
    finally show "k mod 32 \<noteq> 0"
      using d by simp
  qed
  have sum: "word_of_nat (m + hi_byte a + lo_byte a) + data ! i
               + sum_list (take j (drop (Suc i) data)) = ihex_sum a bs"
    using lenbs by (simp add: ihex_sum_def bs_eq sum_list_u8 byte_sum_def j add_ac)
  show ?thesis
  proof (cases "room f < length pre + 9")
    case True
    then show ?thesis
      using i by (subst ihex_write_loop.simps) (auto simp add: nl)
  next
    case False
    let ?f1 = "put f (pre @ ihex_head a m)"
    have r1: "room ?f1 = room f - (length pre + 9)"
      by (simp only: room_put lenhead)
    show ?thesis
    proof (cases "room ?f1 < 2")
      case True
      then have "fprintf ?f1 (fmt_X 2 (unat (data ! i))) = (False, ?f1)"
        by (simp add: fprintf_full)
      then show ?thesis
        using i False True r1 j
        by (subst ihex_write_loop.simps) (auto simp add: nl rd_def)
    next
      case r2: False
      let ?f2 = "put ?f1 (fmt_X 2 (unat (data ! i)))"
      have ni: "i \<noteq> INT_MAX"
        using i by simp
      have step: "ihex_write_loop f data n i a c l =
          ihex_write_loop ?f2 data n (Suc i) (a + 1)
            (word_of_nat (m + hi_byte a + lo_byte a) + data ! i) (l + 1)"
        using i ni False r2
        by (subst ihex_write_loop.simps) (simp add: nl rd_def fprintf_fits)
      have fits1: "length (pre @ ihex_head a m) \<le> room f"
        using False by (simp only: lenhead)
      have f2: "?f2 = put f (pre @ ihex_head a m @ fmt_X 2 (unat (data ! i)))"
        by (simp only: put_put [OF fits1] append_assoc)
      have r3: "room ?f2 = room f - (length pre + 9 + 2)"
        using r1 by (simp add: room_put)
      have le: "Suc i + j \<le> n"
        using m1 j by simp
      note R' = ihex_run [where f = ?f2 and a = "a + 1" and l = "l + 1"
                  and c = "word_of_nat (m + hi_byte a + lo_byte a) + data ! i",
                  OF le i(2) run i(4)]
      show ?thesis
      proof (cases "2 * j \<le> room ?f2")
        case True
        have tot: "length pre + 9 + 2 * m \<le> room f"
          using True r3 False r2 r1 j by simp
        have "put ?f2 (hex_bytes (take j (drop (Suc i) data))) =
              put f (pre @ ihex_head a m @ hex_bytes bs)"
          using False r2 r1 m1
          by (simp add: f2 put_put bs_eq hex_bytes_Cons)
        then have "ihex_write_loop f data n i a c l =
            ihex_write_loop (put f (pre @ ihex_head a m @ hex_bytes bs)) data n (i + m)
              (a + word_of_nat m) (ihex_sum a bs) (l + 1)"
          using R' True j sum by (simp add: step add.assoc)
        with tot show ?thesis
          by simp
      next
        case False
        then have tot: "room f < length pre + 9 + 2 * m"
          using r3 j by simp
        have "\<exists>f'. ihex_write_loop f data n i a c l = Some (0, f')"
          using R' False by (simp add: step)
        with tot show ?thesis
          by simp
      qed
    qed
  qed
qed


function records :: "nat \<Rightarrow> u16 \<Rightarrow> u8 list \<Rightarrow> (u16 \<times> u8 list) list" where
  "records L a bs =
     (if bs = [] \<or> L = 0 then []
      else (a, take L bs) # records L (a + word_of_nat L) (drop L bs))"
  by pat_completeness auto
termination
  by (relation "measure (\<lambda>(L, a, bs). length bs)") auto

declare records.simps [simp del]

definition ihex_text :: "u16 \<Rightarrow> u8 list \<Rightarrow> string" where
  "ihex_text a bs = concat (map (\<lambda>(a, c). ihex_record a c) (records 32 a bs))"

lemma records_Nil [simp]: "records L a [] = []"
  by (subst records.simps) simp

lemma records_step:
  "bs \<noteq> [] \<Longrightarrow> 0 < L \<Longrightarrow>
   records L a bs = (a, take L bs) # records L (a + word_of_nat L) (drop L bs)"
  by (subst records.simps) simp

lemma length_records: "0 < L \<Longrightarrow> length (records L a bs) = (length bs + L - 1) div L"
proof (induction L a bs rule: records.induct)
  case (1 L a bs)
  show ?case
  proof (cases "bs = []")
    case True
    then show ?thesis using 1 by simp
  next
    case False
    then have len: "0 < length bs" by simp
    have IH: "length (records L (a + word_of_nat L) (drop L bs)) = (length bs - L + L - 1) div L"
      using 1 False by simp
    show ?thesis
    proof (cases "L \<le> length bs")
      case True
      then have "length bs + L - 1 = L + (length bs - L + L - 1)"
        using 1(2) by simp
      then have "(length bs + L - 1) div L = Suc ((length bs - L + L - 1) div L)"
        using 1(2) by (simp only: div_add_self1)
      then show ?thesis
        using False 1(2) IH by (simp add: records_step)
    next
      case False
      then have "L \<le> length bs + L - 1" "length bs + L - 1 < L + L"
        using len by linarith+
      then have "L * 1 \<le> length bs + L - 1" "length bs + L - 1 < L * Suc 1"
        by simp_all
      then have "(length bs + L - 1) div L = 1"
        by (rule div_nat_eqI)
      moreover have "drop L bs = []"
        using False by simp
      ultimately show ?thesis
        using \<open>bs \<noteq> []\<close> 1(2) by (simp add: records_step)
    qed
  qed
qed


lemma ihex_tail_sum: "ihex_tail (ihex_sum a bs) = fmt_X 2 (ihex_checksum a bs) @ ''\<newline>''"
  by (simp only: ihex_tail_def ihex_sum_def unat_neg_u8 ihex_checksum_def)

lemma ihex_record_eq:
  "ihex_record a bs = ihex_head a (length bs) @ hex_bytes bs @ ihex_tail (ihex_sum a bs)"
  by (simp add: ihex_record_def ihex_head_def ihex_tail_sum)

lemma ihex_lines:
  assumes "n \<le> length data" "i \<le> n" "i = n \<or> i mod 32 = 0" "0 < i"
    and "recs = records 32 a (drop i (take n data))"
    and "T = ihex_tail c @ concat (map (\<lambda>(a, c). ihex_record a c) recs)"
    and "n \<le> INT_MAX"
  shows "(length T \<le> room f \<longrightarrow>
            ihex_write_loop f data n i a c l = Some (l + word_of_nat (length recs), put f T)) \<and>
         (room f < length T \<longrightarrow> (\<exists>f'. ihex_write_loop f data n i a c l = Some (0, f')))"
  using assms
proof (induction "n - i" arbitrary: i f a c l recs T rule: less_induct)
  case less
  show ?case
  proof (cases "i = n")
    case True
    then have "recs = []" "T = ihex_tail c"
      using less.prems by simp_all
    then show ?thesis
      using True
      by (subst ihex_write_loop.simps, subst (2) ihex_write_loop.simps)
         (simp add: fprintf_def put_def ihex_tail_def)
  next
    case False
    then have i: "i < n" "i mod 32 = 0"
      using less.prems by auto
    define m where "m = min 32 (n - i)"
    define bs where "bs = take m (drop i data)"
    define a' where "a' = a + word_of_nat m"
    define recs' where "recs' = records 32 a' (drop (i + m) (take n data))"
    define T' where "T' = ihex_tail (ihex_sum a bs) @ concat (map (\<lambda>(a, c). ihex_record a c) recs')"
    define S where "S = ihex_tail c @ ihex_head a m @ hex_bytes bs"
    have m: "0 < m" "m \<le> 32" "i + m \<le> n" "i + m = n \<or> (i + m) mod 32 = 0"
      using i by (auto simp add: m_def min_def)
    have lenbs: "length bs = m"
      using less.prems(1) m by (simp add: bs_def)
    have tk: "take 32 (drop i (take n data)) = bs"
      using less.prems(1) m by (auto simp add: bs_def m_def min_def drop_take)
    have ne: "drop i (take n data) \<noteq> []"
      using i less.prems(1) by simp
    have rest: "records 32 (a + 32) (drop 32 (drop i (take n data))) = recs'"
    proof (cases "m = 32")
      case True
      then show ?thesis
        by (simp add: recs'_def a'_def add.commute)
    next
      case False
      then have "i + m = n" "i + 32 \<ge> n"
        using m i by (auto simp add: m_def min_def split: if_splits)
      then show ?thesis
        using less.prems(1) by (simp add: recs'_def)
    qed
    have recs: "recs = (a, bs) # recs'"
      using less.prems(5) ne rest by (simp add: records_step tk)
    have T: "T = S @ T'"
      by (simp add: less.prems(6) recs S_def T'_def ihex_record_eq [of a bs] lenbs)
    have lenS: "length S = 3 + 9 + 2 * m"
      using m by (simp add: S_def lenbs)
    note L = ihex_line [OF i(1) less.prems(1) i(2) less.prems(7) m_def bs_def,
                of "ihex_tail c" c f a l]
    note IH = less.hyps [of "i + m" recs' a' T' "ihex_sum a bs" "put f S" "l + 1",
                OF _ less.prems(1) m(3) m(4) _ recs'_def T'_def less.prems(7)]
    show ?thesis
    proof (cases "length S \<le> room f")
      case False
      then show ?thesis
        using L \<open>0 < i\<close> lenS T by simp
    next
      case True
      then have step: "ihex_write_loop f data n i a c l =
          ihex_write_loop (put f S) data n (i + m) a' (ihex_sum a bs) (l + 1)"
        using L \<open>0 < i\<close> lenS by (simp add: S_def a'_def)
      have room: "room (put f S) = room f - length S"
        by (simp add: room_put)
      have cnt: "l + 1 + word_of_nat (length recs') = l + word_of_nat (length recs)"
        by (simp add: recs)
      show ?thesis
        using IH True m(1) i(1) room
        by (simp add: step T put_put cnt) 
    qed
  qed
qed


lemma ihex_write_result:
  assumes n: "0 < n" "n \<le> length data" "n \<le> INT_MAX"
  shows "(length (ihex_text a (take n data)) \<le> room f \<longrightarrow>
            ihex_write f a data n =
              Some (word_of_nat (length (records 32 a (take n data))),
                    put f (ihex_text a (take n data)))) \<and>
         (room f < length (ihex_text a (take n data)) \<longrightarrow>
            (\<exists>f'. ihex_write f a data n = Some (0, f')))"
proof -
  define m where "m = min 32 (n - 0)"
  define bs where "bs = take m (drop 0 data)"
  define a' where "a' = a + word_of_nat m"
  define recs' where "recs' = records 32 a' (drop m (take n data))"
  define T' where "T' = ihex_tail (ihex_sum a bs) @ concat (map (\<lambda>(a, c). ihex_record a c) recs')"
  define S where "S = ihex_head a m @ hex_bytes bs"
  have m: "0 < m" "m \<le> 32" "m \<le> n" "m = n \<or> m mod 32 = 0"
    using n by (auto simp add: m_def min_def)
  have lenbs: "length bs = m"
    using n m by (simp add: bs_def)
  have tk: "take 32 (take n data) = bs"
    using n m by (auto simp add: bs_def m_def min_def)
  have ne: "take n data \<noteq> []"
    using n by auto
  have rest: "records 32 (a + 32) (drop 32 (take n data)) = recs'"
  proof (cases "m = 32")
    case True
    then show ?thesis
      by (simp add: recs'_def a'_def add.commute)
  next
    case False
    then have "m = n" "32 \<ge> n"
      using m by (auto simp add: m_def min_def split: if_splits)
    then show ?thesis
      using n by (simp add: recs'_def)
  qed
  have "records 32 a (take n data) =
        (a, take 32 (take n data)) # records 32 (a + word_of_nat 32) (drop 32 (take n data))"
    using ne by (rule records_step) simp
  then have recs: "records 32 a (take n data) = (a, bs) # recs'"
    using rest by (simp only: tk of_nat_numeral)
  have T: "ihex_text a (take n data) = S @ T'"
    by (simp add: ihex_text_def recs S_def T'_def ihex_record_eq [of a bs] lenbs)
  have lenS: "length S = 9 + 2 * m"
    using m by (simp add: S_def lenbs)
  have z: "(0::nat) mod 32 = 0"
    by simp
  note L = ihex_line [OF n(1) n(2) z n(3) m_def bs_def, of "[]" 0 f a 0]
  note R = ihex_lines [of n data m recs' a' T' "ihex_sum a bs" "put f S" 1,
              OF n(2) m(3) m(4) m(1) _ T'_def n(3)]
  show ?thesis
  proof (cases "length S \<le> room f")
    case False
    then show ?thesis
      using L lenS T by (simp add: ihex_write_def)
  next
    case True
    then have step: "ihex_write f a data n =
        ihex_write_loop (put f S) data n m a' (ihex_sum a bs) 1"
      using L lenS by (simp add: S_def a'_def ihex_write_def)
    have room: "room (put f S) = room f - length S"
      by (simp add: room_put)
    show ?thesis
      using R True room
      by (simp add: step T put_put recs recs'_def)
  qed
qed

lemma ihex_checksum_less: "ihex_checksum a bs < 256"
  by (simp add: ihex_checksum_def)

lemma length_ihex_record: "length bs < 256 \<Longrightarrow> length (ihex_record a bs) = 2 * length bs + 12"
  by (simp add: ihex_record_def length_fmt_X_2 ihex_checksum_less)

lemma length_concat_records:
  assumes "0 < L" "L < 256" "\<And>a bs. length bs < 256 \<Longrightarrow> length (r a bs) = 2 * length bs + 12"
  shows "length (concat (map (\<lambda>(a, c). r a c) (records L a bs))) =
         2 * length bs + 12 * length (records L a bs)"
  using assms(1,2)
proof (induction L a bs rule: records.induct)
  case (1 L a bs)
  show ?case
  proof (cases "bs = []")
    case True
    then show ?thesis by simp
  next
    case False
    then show ?thesis
      using 1 assms(3) [of "take L bs" a]
      by (auto simp add: records_step min_def)
  qed
qed

lemma length_ihex_text:
  "length (ihex_text a bs) = 2 * length bs + 12 * ((length bs + 31) div 32)"
  using length_concat_records [of 32 ihex_record a bs]
  by (simp add: ihex_text_def length_ihex_record length_records)


definition pap_checksum :: "u16 \<Rightarrow> u8 list \<Rightarrow> nat" where
  "pap_checksum a bs = (length bs + hi_byte a + lo_byte a + byte_sum bs) mod 65536"

definition pap_record :: "u16 \<Rightarrow> u8 list \<Rightarrow> string" where
  "pap_record a bs =
     '';'' @ fmt_X 2 (length bs) @ fmt_X 4 (unat a) @ hex_bytes bs
       @ fmt_X 4 (pap_checksum a bs) @ ''\<newline>''"

definition pap_text :: "u16 \<Rightarrow> u8 list \<Rightarrow> string" where
  "pap_text a bs = concat (map (\<lambda>(a, c). pap_record a c) (records 24 a bs))"

lemma pap_run:
  "i + j \<le> n \<Longrightarrow> n \<le> length data \<Longrightarrow> (\<forall>k. i \<le> k \<and> k < i + j \<longrightarrow> k mod 24 \<noteq> 0) \<Longrightarrow>
   n \<le> INT_MAX \<Longrightarrow>
   (2 * j \<le> room f \<longrightarrow>
      pap_write_loop f data n i a c l =
      pap_write_loop (put f (hex_bytes (take j (drop i data)))) data n (i + j)
        (a + word_of_nat j) (c + sum_list (map ucast (take j (drop i data)))) l) \<and>
   (room f < 2 * j \<longrightarrow> (\<exists>f'. pap_write_loop f data n i a c l = Some (0, f')))"
proof (induction j arbitrary: i f a c)
  case 0
  then show ?case by (simp add: put_Nil)
next
  case (Suc j)
  have i: "i < n" "i < length data" "i mod 24 \<noteq> 0" "i \<noteq> INT_MAX"
    using Suc.prems by auto
  have rest: "Suc i + j \<le> n" "\<forall>k. Suc i \<le> k \<and> k < Suc i + j \<longrightarrow> k mod 24 \<noteq> 0"
    using Suc.prems by auto
  note IH = Suc.IH [OF rest(1) Suc.prems(2) rest(2) Suc.prems(4)]
  show ?case
  proof (cases "2 \<le> room f")
    case False
    then have "fprintf f (fmt_X 2 (unat (data ! i))) = (False, f)"
      by (simp add: fprintf_full)
    with i False show ?thesis
      by (subst pap_write_loop.simps) (simp add: rd_def)
  next
    case True
    let ?f = "put f (fmt_X 2 (unat (data ! i)))"
    have step: "pap_write_loop f data n i a c l =
                pap_write_loop ?f data n (Suc i) (a + 1) (c + ucast (data ! i)) l"
      using i True by (subst pap_write_loop.simps) (simp add: rd_def fprintf_fits)
    have room: "room ?f = room f - 2"
      by (simp add: room_put)
    show ?thesis
      using IH [of ?f "a + 1" "c + ucast (data ! i)"] True i
      by (simp add: step room put_put take_Suc_drop hex_bytes_Cons add.assoc) 
  qed 
qed


definition pap_sum :: "u16 \<Rightarrow> u8 list \<Rightarrow> u16" where
  "pap_sum a bs = word_of_nat (length bs + hi_byte a + lo_byte a + byte_sum bs)"

definition pap_head :: "u16 \<Rightarrow> nat \<Rightarrow> string" where
  "pap_head a m = '';'' @ fmt_X 2 m @ fmt_X 4 (unat a)"

definition pap_tail :: "u16 \<Rightarrow> string" where
  "pap_tail c = fmt_X 4 (unat c) @ ''\<newline>''"

lemma length_pap_tail [simp]: "length (pap_tail c) = 5"
  by (simp add: pap_tail_def)

lemma length_pap_head [simp]: "m < 256 \<Longrightarrow> length (pap_head a m) = 7"
  by (simp add: pap_head_def length_fmt_X_2)

lemma and_ff_lo: "a AND 0xFF = word_of_nat (lo_byte a)"
  for a :: u16
proof -
  have "unat (a AND 0xFF) = unat a mod 256"
    by (simp only: mask8 flip: take_bit_eq_mask) (simp add: unsigned_take_bit_eq take_bit_eq_mod unat_mod)
  then show ?thesis
    unfolding lo_byte_def by (rule word_of_unat_eq)
qed

lemma and_ff_hi: "drop_bit 8 a AND 0xFF = word_of_nat (hi_byte a)"
  for a :: u16
proof -
  have "unat (drop_bit 8 a AND 0xFF) = (unat a div 256) mod 256"
    by (simp only: mask8 flip: take_bit_eq_mask)
       (simp add: unsigned_take_bit_eq unsigned_drop_bit_eq take_bit_eq_mod drop_bit_eq_div
          unat_mod unat_div)
  moreover have "unat a div 256 < 256"
    using unat_u16_less [of a] by simp
  ultimately have "unat (drop_bit 8 a AND 0xFF) = unat a div 256"
    by simp
  then show ?thesis
    unfolding hi_byte_def by (rule word_of_unat_eq)
qed

lemma ucast_u8_u16: "(ucast (w :: u8) :: u16) = word_of_nat (unat w)"
  by simp

lemma pap_sum0:
  "m < 256 \<Longrightarrow>
   (ucast (word_of_nat m :: u8) :: u16) + (drop_bit 8 a AND 0xFF) + (a AND 0xFF) =
   word_of_nat (m + hi_byte a + lo_byte a)"
  by (simp only: and_ff_hi) (simp only: and_ff_lo ucast_u8_u16 unat_of_nat_u8 of_nat_add)

lemma sum_list_ucast: "(sum_list (map ucast bs) :: u16) = word_of_nat (byte_sum bs)"
  for bs :: "u8 list"
  by (induction bs) (simp_all add: byte_sum_def)

lemma pap_new_line_eq:
  assumes "i < n" and m: "m = min 24 (n - i)"
  shows "pap_new_line f n i a c l =
     (let pre = (if i \<noteq> 0 then pap_tail c else []) in
      if room f < length pre then Inl (0, f)
      else if room f < length pre + 7 then Inl (0, put f pre)
      else Inr (put f (pre @ pap_head a m),
                word_of_nat (m + hi_byte a + lo_byte a), l + 1))"
proof -
  have m24: "m < 256"
    using m by auto
  have bl: "(if 24 < n - i then 24 else n - i) = m"
    using m by auto
  have len: "length (pap_head a m) = 7"
    using m24 by simp
  have eq: "pap_new_line f n i a c l =
     (case (if i \<noteq> 0 then fprintf f (pap_tail c) else (True, f)) of
        (False, f1) \<Rightarrow> Inl (0, f1)
      | (True, f1) \<Rightarrow>
          (case fprintf f1 (pap_head a m) of
             (False, f2) \<Rightarrow> Inl (0, f2)
           | (True, f2) \<Rightarrow> Inr (f2, word_of_nat (m + hi_byte a + lo_byte a), l + 1)))"
    unfolding pap_new_line_def bl Let_def pap_sum0 [OF m24] pap_tail_def pap_head_def
      unat_of_nat_u8 [OF m24] by (rule refl)
  show ?thesis
    unfolding eq using len
    by (cases "i = 0") (auto simp add: fprintf_def put_def Let_def)
qed

lemma pap_line:
  assumes i: "i < n" "n \<le> length data" "i mod 24 = 0" "n \<le> INT_MAX"
    and m: "m = min 24 (n - i)"
    and bs: "bs = take m (drop i data)"
    and pre: "pre = (if i \<noteq> 0 then pap_tail c else [])"
  shows "(length pre + 7 + 2 * m \<le> room f \<longrightarrow>
            pap_write_loop f data n i a c l =
            pap_write_loop (put f (pre @ pap_head a m @ hex_bytes bs)) data n (i + m)
              (a + word_of_nat m) (pap_sum a bs) (l + 1)) \<and>
         (room f < length pre + 7 + 2 * m \<longrightarrow>
            (\<exists>f'. pap_write_loop f data n i a c l = Some (0, f')))"
proof -
  have m1: "0 < m" "m \<le> 24" "i + m \<le> n"
    using i m by auto
  obtain j where j: "m = Suc j"
    using m1(1) by (cases m) auto
  have lenbs: "length bs = m"
    using bs i m by auto
  have bs_eq: "bs = data ! i # take j (drop (Suc i) data)"
    using i by (simp add: bs j take_Suc_drop)
  have nl: "pap_new_line f n i a c l =
     (if room f < length pre then Inl (0, f)
      else if room f < length pre + 7 then Inl (0, put f pre)
      else Inr (put f (pre @ pap_head a m), word_of_nat (m + hi_byte a + lo_byte a), l + 1))"
    using pap_new_line_eq [OF i(1) m] by (simp add: pre Let_def)
  have lenhead: "length (pre @ pap_head a m) = length pre + 7"
    using m1 by simp
  have run: "\<forall>k. Suc i \<le> k \<and> k < Suc i + j \<longrightarrow> k mod 24 \<noteq> 0"
  proof (intro allI impI)
    fix k assume k: "Suc i \<le> k \<and> k < Suc i + j"
    then have d: "k = i + (k - i)" "0 < k - i" "k - i < 24"
      using m1 j by auto
    have "(i + (k - i)) mod 24 = (i mod 24 + (k - i)) mod 24"
      by (simp only: mod_add_left_eq)
    also have "\<dots> = k - i"
      using d(3) by (simp add: i(3))
    finally show "k mod 24 \<noteq> 0"
      using d by simp
  qed
  have sum: "word_of_nat (m + hi_byte a + lo_byte a) + ucast (data ! i)
               + sum_list (map ucast (take j (drop (Suc i) data))) = pap_sum a bs"
    using lenbs by (simp add: pap_sum_def bs_eq sum_list_ucast byte_sum_def j add_ac)
  show ?thesis
  proof (cases "room f < length pre + 7")
    case True
    then show ?thesis
      using i by (subst pap_write_loop.simps) (auto simp add: nl)
  next
    case False
    let ?f1 = "put f (pre @ pap_head a m)"
    have r1: "room ?f1 = room f - (length pre + 7)"
      by (simp only: room_put lenhead)
    show ?thesis
    proof (cases "room ?f1 < 2")
      case True
      then have "fprintf ?f1 (fmt_X 2 (unat (data ! i))) = (False, ?f1)"
        by (simp add: fprintf_full)
      then show ?thesis
        using i False True r1 j
        by (subst pap_write_loop.simps) (auto simp add: nl rd_def)
    next
      case r2: False
      let ?f2 = "put ?f1 (fmt_X 2 (unat (data ! i)))"
      have ni: "i \<noteq> INT_MAX"
        using i by simp
      have step: "pap_write_loop f data n i a c l =
          pap_write_loop ?f2 data n (Suc i) (a + 1)
            (word_of_nat (m + hi_byte a + lo_byte a) + ucast (data ! i)) (l + 1)"
        using i ni False r2
        by (subst pap_write_loop.simps) (simp add: nl rd_def fprintf_fits)
      have fits1: "length (pre @ pap_head a m) \<le> room f"
        using False by (simp only: lenhead)
      have f2: "?f2 = put f (pre @ pap_head a m @ fmt_X 2 (unat (data ! i)))"
        by (simp only: put_put [OF fits1] append_assoc)
      have r3: "room ?f2 = room f - (length pre + 7 + 2)"
        using r1 by (simp add: room_put)
      have le: "Suc i + j \<le> n"
        using m1 j by simp
      note R' = pap_run [where f = ?f2 and a = "a + 1" and l = "l + 1"
                  and c = "word_of_nat (m + hi_byte a + lo_byte a) + ucast (data ! i)",
                  OF le i(2) run i(4)]
      show ?thesis
      proof (cases "2 * j \<le> room ?f2")
        case True
        have tot: "length pre + 7 + 2 * m \<le> room f"
          using True r3 False r2 r1 j by simp
        have "put ?f2 (hex_bytes (take j (drop (Suc i) data))) =
              put f (pre @ pap_head a m @ hex_bytes bs)"
          using False r2 r1 m1
          by (simp add: f2 put_put bs_eq hex_bytes_Cons)
        then have "pap_write_loop f data n i a c l =
            pap_write_loop (put f (pre @ pap_head a m @ hex_bytes bs)) data n (i + m)
              (a + word_of_nat m) (pap_sum a bs) (l + 1)"
          using R' True j sum by (simp add: step add.assoc)
        with tot show ?thesis
          by simp
      next
        case False
        then have tot: "room f < length pre + 7 + 2 * m"
          using r3 j by simp
        have "\<exists>f'. pap_write_loop f data n i a c l = Some (0, f')"
          using R' False by (simp add: step)
        with tot show ?thesis
          by simp
      qed
    qed
  qed
qed


lemma pap_tail_sum: "pap_tail (pap_sum a bs) = fmt_X 4 (pap_checksum a bs) @ ''\<newline>''"
  by (simp only: pap_tail_def pap_sum_def unat_of_nat pap_checksum_def) simp

lemma pap_record_eq:
  "pap_record a bs = pap_head a (length bs) @ hex_bytes bs @ pap_tail (pap_sum a bs)"
  by (simp add: pap_record_def pap_head_def pap_tail_sum)

lemma pap_lines:
  assumes "n \<le> length data" "i \<le> n" "i = n \<or> i mod 24 = 0" "0 < i"
    and "recs = records 24 a (drop i (take n data))"
    and "T = pap_tail c @ concat (map (\<lambda>(a, c). pap_record a c) recs)"
    and "n \<le> INT_MAX"
  shows "(length T \<le> room f \<longrightarrow>
            pap_write_loop f data n i a c l = Some (l + word_of_nat (length recs), put f T)) \<and>
         (room f < length T \<longrightarrow> (\<exists>f'. pap_write_loop f data n i a c l = Some (0, f')))"
  using assms
proof (induction "n - i" arbitrary: i f a c l recs T rule: less_induct)
  case less
  show ?case
  proof (cases "i = n")
    case True
    then have "recs = []" "T = pap_tail c"
      using less.prems by simp_all
    then show ?thesis
      using True
      by (subst pap_write_loop.simps, subst (2) pap_write_loop.simps)
         (simp add: fprintf_def put_def pap_tail_def)
  next
    case False
    then have i: "i < n" "i mod 24 = 0"
      using less.prems by auto
    define m where "m = min 24 (n - i)"
    define bs where "bs = take m (drop i data)"
    define a' where "a' = a + word_of_nat m"
    define recs' where "recs' = records 24 a' (drop (i + m) (take n data))"
    define T' where "T' = pap_tail (pap_sum a bs) @ concat (map (\<lambda>(a, c). pap_record a c) recs')"
    define S where "S = pap_tail c @ pap_head a m @ hex_bytes bs"
    have m: "0 < m" "m \<le> 24" "i + m \<le> n" "i + m = n \<or> (i + m) mod 24 = 0"
      using i by (auto simp add: m_def min_def)
    have lenbs: "length bs = m"
      using less.prems(1) m by (simp add: bs_def)
    have tk: "take 24 (drop i (take n data)) = bs"
      using less.prems(1) m by (auto simp add: bs_def m_def min_def drop_take)
    have ne: "drop i (take n data) \<noteq> []"
      using i less.prems(1) by simp
    have rest: "records 24 (a + 24) (drop 24 (drop i (take n data))) = recs'"
    proof (cases "m = 24")
      case True
      then show ?thesis
        by (simp add: recs'_def a'_def add.commute)
    next
      case False
      then have "i + m = n" "i + 24 \<ge> n"
        using m i by (auto simp add: m_def min_def split: if_splits)
      then show ?thesis
        using less.prems(1) by (simp add: recs'_def)
    qed
    have recs: "recs = (a, bs) # recs'"
      using less.prems(5) ne rest by (simp add: records_step tk)
    have T: "T = S @ T'"
      by (simp add: less.prems(6) recs S_def T'_def pap_record_eq [of a bs] lenbs)
    have lenS: "length S = 5 + 7 + 2 * m"
      using m by (simp add: S_def lenbs)
    note L = pap_line [OF i(1) less.prems(1) i(2) less.prems(7) m_def bs_def,
                of "pap_tail c" c f a l]
    note IH = less.hyps [of "i + m" recs' a' T' "pap_sum a bs" "put f S" "l + 1",
                OF _ less.prems(1) m(3) m(4) _ recs'_def T'_def less.prems(7)]
    show ?thesis
    proof (cases "length S \<le> room f")
      case False
      then show ?thesis
        using L \<open>0 < i\<close> lenS T by simp
    next
      case True
      then have step: "pap_write_loop f data n i a c l =
          pap_write_loop (put f S) data n (i + m) a' (pap_sum a bs) (l + 1)"
        using L \<open>0 < i\<close> lenS by (simp add: S_def a'_def)
      have room: "room (put f S) = room f - length S"
        by (simp add: room_put)
      have cnt: "l + 1 + word_of_nat (length recs') = l + word_of_nat (length recs)"
        by (simp add: recs)
      show ?thesis
        using IH True m(1) i(1) room
        by (simp add: step T put_put cnt) 
    qed
  qed
qed


lemma pap_write_result:
  assumes n: "0 < n" "n \<le> length data" "n \<le> INT_MAX"
  shows "(length (pap_text a (take n data)) \<le> room f \<longrightarrow>
            pap_write f a data n =
              Some (word_of_nat (length (records 24 a (take n data))),
                    put f (pap_text a (take n data)))) \<and>
         (room f < length (pap_text a (take n data)) \<longrightarrow>
            (\<exists>f'. pap_write f a data n = Some (0, f')))"
proof -
  define m where "m = min 24 (n - 0)"
  define bs where "bs = take m (drop 0 data)"
  define a' where "a' = a + word_of_nat m"
  define recs' where "recs' = records 24 a' (drop m (take n data))"
  define T' where "T' = pap_tail (pap_sum a bs) @ concat (map (\<lambda>(a, c). pap_record a c) recs')"
  define S where "S = pap_head a m @ hex_bytes bs"
  have m: "0 < m" "m \<le> 24" "m \<le> n" "m = n \<or> m mod 24 = 0"
    using n by (auto simp add: m_def min_def)
  have lenbs: "length bs = m"
    using n m by (simp add: bs_def)
  have tk: "take 24 (take n data) = bs"
    using n m by (auto simp add: bs_def m_def min_def)
  have ne: "take n data \<noteq> []"
    using n by auto
  have rest: "records 24 (a + 24) (drop 24 (take n data)) = recs'"
  proof (cases "m = 24")
    case True
    then show ?thesis
      by (simp add: recs'_def a'_def add.commute)
  next
    case False
    then have "m = n" "24 \<ge> n"
      using m by (auto simp add: m_def min_def split: if_splits)
    then show ?thesis
      using n by (simp add: recs'_def)
  qed
  have "records 24 a (take n data) =
        (a, take 24 (take n data)) # records 24 (a + word_of_nat 24) (drop 24 (take n data))"
    using ne by (rule records_step) simp
  then have recs: "records 24 a (take n data) = (a, bs) # recs'"
    using rest by (simp only: tk of_nat_numeral)
  have T: "pap_text a (take n data) = S @ T'"
    by (simp add: pap_text_def recs S_def T'_def pap_record_eq [of a bs] lenbs)
  have lenS: "length S = 7 + 2 * m"
    using m by (simp add: S_def lenbs)
  have z: "(0::nat) mod 24 = 0"
    by simp
  note L = pap_line [OF n(1) n(2) z n(3) m_def bs_def, of "[]" 0 f a 0]
  note R = pap_lines [of n data m recs' a' T' "pap_sum a bs" "put f S" 1,
              OF n(2) m(3) m(4) m(1) _ T'_def n(3)]
  show ?thesis
  proof (cases "length S \<le> room f")
    case False
    then show ?thesis
      using L lenS T by (simp add: pap_write_def)
  next
    case True
    then have step: "pap_write f a data n =
        pap_write_loop (put f S) data n m a' (pap_sum a bs) 1"
      using L lenS by (simp add: S_def a'_def pap_write_def)
    have room: "room (put f S) = room f - length S"
      by (simp add: room_put)
    show ?thesis
      using R True room
      by (simp add: step T put_put recs recs'_def)
  qed
qed

lemma length_pap_record: "length bs < 256 \<Longrightarrow> length (pap_record a bs) = 2 * length bs + 12"
  by (simp add: pap_record_def length_fmt_X_2 length_fmt_X_4 pap_checksum_def)

lemma length_pap_text:
  "length (pap_text a bs) = 2 * length bs + 12 * ((length bs + 23) div 24)"
  using length_concat_records [of 24 pap_record a bs]
  by (simp add: pap_text_def length_pap_record length_records)

subsection \<open>Claims on the two writers\<close>

lemma records_nth:
  "0 < L \<Longrightarrow> k < length (records L a bs) \<Longrightarrow>
   records L a bs ! k = (a + word_of_nat (k * L), take L (drop (k * L) bs))"
proof (induction k arbitrary: a bs)
  case 0
  then have "bs \<noteq> []" by auto
  then show ?case using 0 by (simp add: records_step)
next
  case (Suc k)
  then have ne: "bs \<noteq> []" by auto
  then have "k < length (records L (a + word_of_nat L) (drop L bs))"
    using Suc.prems by (simp add: records_step)
  then show ?case
    using Suc.IH [of "a + word_of_nat L" "drop L bs"] Suc.prems(1) ne
    by (simp add: records_step add.commute add.assoc)
qed

lemma ihex_new_line_Inl: "ihex_new_line f n i a c l = Inl ret \<Longrightarrow> fst ret = 0"
  by (auto simp add: ihex_new_line_def Let_def split: if_splits prod.splits bool.splits)

lemma pap_new_line_Inl: "pap_new_line f n i a c l = Inl ret \<Longrightarrow> fst ret = 0"
  by (auto simp add: pap_new_line_def Let_def split: if_splits prod.splits bool.splits)

lemma ihex_write_loop_int:
  "ihex_write_loop f data n i a c l = Some (ret, f') \<Longrightarrow> ret \<noteq> 0 \<Longrightarrow>
     n \<le> INT_MAX \<or> INT_MAX < i"
proof (induction f data n i a c l rule: ihex_write_loop.induct)
  case (1 f data n i a c l)
  show ?case
  proof (cases "i < n")
    case False
    then show ?thesis by linarith
  next
    case True
    show ?thesis
      using "1.prems" True "1.IH"
      by (subst (asm) ihex_write_loop.simps)
         (fastforce split: if_splits sum.splits option.splits prod.splits bool.splits
            dest: ihex_new_line_Inl)
  qed
qed

lemma pap_write_loop_int:
  "pap_write_loop f data n i a c l = Some (ret, f') \<Longrightarrow> ret \<noteq> 0 \<Longrightarrow>
     n \<le> INT_MAX \<or> INT_MAX < i"
proof (induction f data n i a c l rule: pap_write_loop.induct)
  case (1 f data n i a c l)
  show ?case
  proof (cases "i < n")
    case False
    then show ?thesis by linarith
  next
    case True
    show ?thesis
      using "1.prems" True "1.IH"
      by (subst (asm) pap_write_loop.simps)
         (fastforce split: if_splits sum.splits option.splits prod.splits bool.splits
            dest: pap_new_line_Inl)
  qed
qed

lemma ihex_write_nonzero:
  assumes "0 < n" "n \<le> length data" "ihex_write f a data n = Some (ret, f')" "ret \<noteq> 0"
  shows "f' = put f (ihex_text a (take n data)) \<and>
         ret = word_of_nat (length (records 32 a (take n data))) \<and>
         length (ihex_text a (take n data)) \<le> room f"
proof -
  have int: "n \<le> INT_MAX"
    using ihex_write_loop_int [of f data n 0 a 0 0 ret f'] assms(3,4)
    by (simp add: ihex_write_def)
  show ?thesis
  proof (cases "length (ihex_text a (take n data)) \<le> room f")
    case True
    then show ?thesis
      using ihex_write_result [OF assms(1,2) int, of a f] assms(3) by simp
  next
    case False
    then show ?thesis
      using ihex_write_result [OF assms(1,2) int, of a f] assms(3,4) by auto
  qed
qed

lemma pap_write_nonzero:
  assumes "0 < n" "n \<le> length data" "pap_write f a data n = Some (ret, f')" "ret \<noteq> 0"
  shows "f' = put f (pap_text a (take n data)) \<and>
         ret = word_of_nat (length (records 24 a (take n data))) \<and>
         length (pap_text a (take n data)) \<le> room f"
proof -
  have int: "n \<le> INT_MAX"
    using pap_write_loop_int [of f data n 0 a 0 0 ret f'] assms(3,4)
    by (simp add: pap_write_def)
  show ?thesis
  proof (cases "length (pap_text a (take n data)) \<le> room f")
    case True
    then show ?thesis
      using pap_write_result [OF assms(1,2) int, of a f] assms(3) by simp
  next
    case False
    then show ?thesis
      using pap_write_result [OF assms(1,2) int, of a f] assms(3,4) by auto
  qed
qed

text \<open>
  Claim C4. A write of \<open>n \<ge> 1\<close> bytes from address \<open>a\<close> that succeeds (a non-zero
  return) has appended exactly the records of the chunks of the buffer. An Intel-hex
  record is \<open>:\<close>, the byte count in 2 hex digits, the address in 4, the type \<open>00\<close>, each
  data byte in 2, and the two's complement mod 256 of (count + high address byte + low
  address byte + data bytes) in 2, then a newline. A papertape record is \<open>;\<close>, count,
  address, data, and the same sum, not negated, as a 16-bit value in 4 hex digits.
  Each checksum depends on its own record only. Record \<open>k\<close> holds the bytes from
  \<open>k * L\<close> on and starts at address \<open>a + k * L\<close>.
\<close>

theorem C4_record_checksums:
  assumes "0 < n" and "n \<le> length data"
  shows "(\<forall>ret f'. ihex_write f a data n = Some (ret, f') \<and> ret \<noteq> 0 \<longrightarrow>
            written f' = written f @
              concat (map (\<lambda>(a, bs). ihex_record a bs) (records 32 a (take n data)))) \<and>
         (\<forall>ret f'. pap_write f a data n = Some (ret, f') \<and> ret \<noteq> 0 \<longrightarrow>
            written f' = written f @
              concat (map (\<lambda>(a, bs). pap_record a bs) (records 24 a (take n data)))) \<and>
         (\<forall>a bs. ihex_record a bs =
            '':'' @ fmt_X 2 (length bs) @ fmt_X 4 (unat a) @ ''00''
              @ concat (map (\<lambda>b. fmt_X 2 (unat b)) bs)
              @ fmt_X 2 ((256 - (length bs + unat a div 256 + unat a mod 256
                                  + sum_list (map unat bs)) mod 256) mod 256)
              @ ''\<newline>'') \<and>
         (\<forall>a bs. pap_record a bs =
            '';'' @ fmt_X 2 (length bs) @ fmt_X 4 (unat a)
              @ concat (map (\<lambda>b. fmt_X 2 (unat b)) bs)
              @ fmt_X 4 ((length bs + unat a div 256 + unat a mod 256
                           + sum_list (map unat bs)) mod 65536)
              @ ''\<newline>'') \<and>
         (\<forall>k < length (records 32 a (take n data)).
            records 32 a (take n data) ! k =
              (a + word_of_nat (k * 32), take 32 (drop (k * 32) (take n data)))) \<and>
         (\<forall>k < length (records 24 a (take n data)).
            records 24 a (take n data) ! k =
              (a + word_of_nat (k * 24), take 24 (drop (k * 24) (take n data))))"
proof (intro conjI allI impI)
  fix ret f'
  assume "ihex_write f a data n = Some (ret, f') \<and> ret \<noteq> 0"
  then have "f' = put f (ihex_text a (take n data))"
    using ihex_write_nonzero [OF assms] by blast
  then show "written f' = written f @
      concat (map (\<lambda>(a, bs). ihex_record a bs) (records 32 a (take n data)))"
    by (simp add: written_put ihex_text_def)
next
  fix ret f'
  assume "pap_write f a data n = Some (ret, f') \<and> ret \<noteq> 0"
  then have "f' = put f (pap_text a (take n data))"
    using pap_write_nonzero [OF assms] by blast
  then show "written f' = written f @
      concat (map (\<lambda>(a, bs). pap_record a bs) (records 24 a (take n data)))"
    by (simp add: written_put pap_text_def)
next
  fix a bs
  show "ihex_record a bs =
            '':'' @ fmt_X 2 (length bs) @ fmt_X 4 (unat a) @ ''00''
              @ concat (map (\<lambda>b. fmt_X 2 (unat b)) bs)
              @ fmt_X 2 ((256 - (length bs + unat a div 256 + unat a mod 256
                                  + sum_list (map unat bs)) mod 256) mod 256)
              @ ''\<newline>''"
    by (simp add: ihex_record_def ihex_checksum_def hex_bytes_def hi_byte_def lo_byte_def
          byte_sum_def)
next
  fix a bs
  show "pap_record a bs =
            '';'' @ fmt_X 2 (length bs) @ fmt_X 4 (unat a)
              @ concat (map (\<lambda>b. fmt_X 2 (unat b)) bs)
              @ fmt_X 4 ((length bs + unat a div 256 + unat a mod 256
                           + sum_list (map unat bs)) mod 65536)
              @ ''\<newline>''"
    by (simp add: pap_record_def pap_checksum_def hex_bytes_def hi_byte_def lo_byte_def
          byte_sum_def)
next
  fix k assume "k < length (records 32 a (take n data))"
  then show "records 32 a (take n data) ! k =
      (a + word_of_nat (k * 32), take 32 (drop (k * 32) (take n data)))"
    by (simp add: records_nth)
next
  fix k assume "k < length (records 24 a (take n data))"
  then show "records 24 a (take n data) ! k =
      (a + word_of_nat (k * 24), take 24 (drop (k * 24) (take n data)))"
    by (simp add: records_nth)
qed

subsection \<open>The write calls of \<open>output_hex\<close>\<close>

text \<open>
  The calls that \<open>output_hex\<close> makes, as a list of (address, offset into the buffer,
  byte count), and what running them in order gives: the first call that returns 0
  ends the run with \<open>False\<close>.
\<close>

fun run_writes ::
  "hex_write_fn \<Rightarrow> u8 list \<Rightarrow> (u16 \<times> nat \<times> nat) list \<Rightarrow> u16 \<Rightarrow> FILE
     \<Rightarrow> (bool \<times> u16 \<times> FILE) option" where
  "run_writes write_fn data [] lines output_file = Some (True, lines, output_file)"
| "run_writes write_fn data ((address, offset, data_size) # calls) lines output_file =
     (case write_fn output_file address (drop offset data) data_size of
        None \<Rightarrow> None
      | Some (retlines, output_file1) \<Rightarrow>
          if retlines = 0 then Some (False, lines, output_file1)
          else run_writes write_fn data calls (lines + retlines) output_file1)"

fun returned_counts ::
  "hex_write_fn \<Rightarrow> u8 list \<Rightarrow> (u16 \<times> nat \<times> nat) list \<Rightarrow> FILE \<Rightarrow> u16 list" where
  "returned_counts write_fn data [] output_file = []"
| "returned_counts write_fn data ((address, offset, data_size) # calls) output_file =
     (case write_fn output_file address (drop offset data) data_size of
        None \<Rightarrow> []
      | Some (retlines, output_file1) \<Rightarrow>
          retlines # returned_counts write_fn data calls output_file1)"

definition plane_calls :: "options_t \<Rightarrow> nat \<Rightarrow> nat \<Rightarrow> nat \<Rightarrow> nat \<Rightarrow> (u16 \<times> nat \<times> nat) list" where
  "plane_calls options data_size x_size y_size cbit =
     (let cbit_offset = (word_of_nat (cbit * CARD_MEMORY_SIZE) :: u16) in
      if x_size > (MAX_COL_BYTES - 1) * 8
      then [(base_address options + cbit_offset, unat cbit_offset, data_size)]
      else map (\<lambda>linenum.
                  (base_address options + cbit_offset + word_of_nat (linenum * MAX_COL_BYTES),
                   unat cbit_offset + linenum * ((x_size + 7) div 8),
                   (x_size + 7) div 8))
             [0..<y_size])"

definition hex_calls :: "options_t \<Rightarrow> nat \<Rightarrow> nat \<Rightarrow> nat \<Rightarrow> nat \<Rightarrow> (u16 \<times> nat \<times> nat) list" where
  "hex_calls options data_size color_bits x_size y_size =
     concat (map (plane_calls options data_size x_size y_size) [0..<color_bits])"

lemma run_writes_append:
  "run_writes w data (cs1 @ cs2) lines f =
     (case run_writes w data cs1 lines f of
        None \<Rightarrow> None
      | Some (False, l, f') \<Rightarrow> Some (False, l, f')
      | Some (True, l, f') \<Rightarrow> run_writes w data cs2 l f')"
  by (induction cs1 arbitrary: lines f) (auto split: option.splits bool.splits)

lemma run_writes_total:
  "run_writes w data cs lines f = Some (True, lines', f') \<Longrightarrow>
   lines' = lines + sum_list (returned_counts w data cs f)"
proof (induction cs arbitrary: lines f)
  case Nil
  then show ?case by simp
next
  case (Cons c cs)
  obtain a off n where c: "c = (a, off, n)"
    by (cases c) auto
  from Cons.prems obtain r f1 where
    w: "w f a (drop off data) n = Some (r, f1)" "r \<noteq> 0"
    and rest: "run_writes w data cs (lines + r) f1 = Some (True, lines', f')"
    by (auto simp add: c split: option.splits if_splits)
  from Cons.IH [OF rest] w show ?case
    by (simp add: c add.assoc)
qed

lemma output_hex_rows_run:
  "output_hex_rows w f data options off x_size y_size linenum lines =
   run_writes w data
     (map (\<lambda>linenum.
             (base_address options + off + word_of_nat (linenum * MAX_COL_BYTES),
              unat off + linenum * ((x_size + 7) div 8),
              (x_size + 7) div 8))
        [linenum..<y_size]) lines f"
proof (induction "y_size - linenum" arbitrary: linenum lines f)
  case 0
  then show ?case
    by (subst output_hex_rows.simps) simp
next
  case (Suc d)
  then have lt: "linenum < y_size" and d: "d = y_size - (linenum + 1)"
    by auto
  show ?case
    using Suc.hyps(1) [OF d] lt
    by (subst output_hex_rows.simps)
       (simp add: upt_conv_Cons Let_def split: option.splits)
qed

lemma output_hex_planes_run:
  "output_hex_planes w f data options data_size color_bits x_size y_size cbit lines =
   run_writes w data
     (concat (map (plane_calls options data_size x_size y_size) [cbit..<color_bits])) lines f"
proof (induction "color_bits - cbit" arbitrary: cbit lines f)
  case 0
  then show ?case
    by (subst output_hex_planes.simps) simp
next
  case (Suc d)
  then have lt: "cbit < color_bits" and d: "d = color_bits - (cbit + 1)"
    by auto
  note IH = Suc.hyps(1) [OF d]
  show ?case
  proof (cases "x_size > (MAX_COL_BYTES - 1) * 8")
    case True
    then show ?thesis
      using IH lt
      by (subst output_hex_planes.simps)
         (simp add: upt_conv_Cons Let_def plane_calls_def split: option.splits)
  next
    case False
    then show ?thesis
      using IH lt
      by (subst output_hex_planes.simps)
         (simp add: upt_conv_Cons Let_def plane_calls_def run_writes_append
            output_hex_rows_run split: option.splits bool.splits)
  qed
qed

lemma replicate_num: "replicate (numeral k) x = x # replicate (pred_numeral k) x"
  by (simp add: numeral_eq_Suc)

lemmas writer_eval =
  ihex_write_def pap_write_def ihex_write_loop.simps pap_write_loop.simps
  ihex_new_line_def pap_new_line_def fprintf_def rd_def fmt_X_def to_hex.simps
  hex_digit_def replicate_num INT_MAX_def

lemma ihex_write_one:
  "ihex_write \<lparr>written = [], room = 100\<rparr> 0x2000 [0x0F] 1 =
     Some (1, \<lparr>written = '':012000000FD0\<newline>'', room = 86\<rparr>)"
  by (simp add: writer_eval)

lemma pap_write_one:
  "pap_write \<lparr>written = [], room = 100\<rparr> 0x2000 [0x0F] 1 =
     Some (1, \<lparr>written = '';0120000F0030\<newline>'', room = 86\<rparr>)"
  by (simp add: writer_eval)

theorem C4_record_checksums_witness:
  "(0::nat) < 1 \<and> (1::nat) \<le> length [0x0F :: u8] \<and>
   ihex_write \<lparr>written = [], room = 100\<rparr> 0x2000 [0x0F] 1 =
     Some (1, \<lparr>written = '':012000000FD0\<newline>'', room = 86\<rparr>) \<and>
   concat (map (\<lambda>(a, bs). ihex_record a bs) (records 32 0x2000 (take 1 [0x0F]))) =
     '':012000000FD0\<newline>'' \<and>
   pap_write \<lparr>written = [], room = 100\<rparr> 0x2000 [0x0F] 1 =
     Some (1, \<lparr>written = '';0120000F0030\<newline>'', room = 86\<rparr>) \<and>
   concat (map (\<lambda>(a, bs). pap_record a bs) (records 24 0x2000 (take 1 [0x0F]))) =
     '';0120000F0030\<newline>''"
proof -
  have h: "(0::nat) < 1" "(1::nat) \<le> length [0x0F :: u8]"
    by simp_all
  note T = C4_record_checksums [OF h, of "\<lparr>written = [], room = 100\<rparr>" "0x2000"]
  have i: "written \<lparr>written = '':012000000FD0\<newline>'', room = 86\<rparr> =
      written \<lparr>written = [], room = 100\<rparr> @
        concat (map (\<lambda>(a, bs). ihex_record a bs) (records 32 0x2000 (take 1 [0x0F])))"
    using T [THEN conjunct1, rule_format, of 1 "\<lparr>written = '':012000000FD0\<newline>'', room = 86\<rparr>"]
      ihex_write_one by simp
  have p: "written \<lparr>written = '';0120000F0030\<newline>'', room = 86\<rparr> =
      written \<lparr>written = [], room = 100\<rparr> @
        concat (map (\<lambda>(a, bs). pap_record a bs) (records 24 0x2000 (take 1 [0x0F])))"
    using T [THEN conjunct2, THEN conjunct1, rule_format,
               of 1 "\<lparr>written = '';0120000F0030\<newline>'', room = 86\<rparr>"]
      pap_write_one by simp
  show ?thesis
    using i p ihex_write_one pap_write_one by simp
qed



subsection \<open>The stream of a whole run\<close>

definition calls_in_buffer :: "u8 list \<Rightarrow> (u16 \<times> nat \<times> nat) list \<Rightarrow> bool" where
  "calls_in_buffer data calls =
     (\<forall>(address, offset, data_size) \<in> set calls. 0 < data_size \<and> offset + data_size \<le> length data)"

lemma run_writes_pap:
  "calls_in_buffer data cs \<Longrightarrow>
   run_writes pap_write data cs lines f = Some (True, lines', f') \<Longrightarrow>
   lines' = lines + word_of_nat (sum_list (map (\<lambda>(a, off, n). (n + 23) div 24) cs)) \<and>
   written f' = written f @ concat (map (\<lambda>(a, off, n). pap_text a (take n (drop off data))) cs)"
proof (induction cs arbitrary: lines f)
  case Nil
  then show ?case by simp
next
  case (Cons c cs)
  obtain a off n where c: "c = (a, off, n)"
    by (cases c) auto
  have n: "0 < n" "n \<le> length (drop off data)" and cs: "calls_in_buffer data cs"
    using Cons.prems(1) by (auto simp add: calls_in_buffer_def c)
  from Cons.prems(2) obtain r f1 where
    w: "pap_write f a (drop off data) n = Some (r, f1)" "r \<noteq> 0"
    and rest: "run_writes pap_write data cs (lines + r) f1 = Some (True, lines', f')"
    by (auto simp add: c split: option.splits if_splits)
  have res: "r = word_of_nat (length (records 24 a (take n (drop off data))))"
      "f1 = put f (pap_text a (take n (drop off data)))"
    using pap_write_nonzero [OF n w] by simp_all
  have cnt: "length (records 24 a (take n (drop off data))) = (n + 23) div 24"
    using n by (simp add: length_records min_def)
  show ?case
    using Cons.IH [OF cs rest] by (simp add: c res cnt written_put add.assoc)
qed

lemma run_writes_ihex:
  "calls_in_buffer data cs \<Longrightarrow>
   run_writes ihex_write data cs lines f = Some (True, lines', f') \<Longrightarrow>
   lines' = lines + word_of_nat (sum_list (map (\<lambda>(a, off, n). (n + 31) div 32) cs)) \<and>
   written f' = written f @ concat (map (\<lambda>(a, off, n). ihex_text a (take n (drop off data))) cs)"
proof (induction cs arbitrary: lines f)
  case Nil
  then show ?case by simp
next
  case (Cons c cs)
  obtain a off n where c: "c = (a, off, n)"
    by (cases c) auto
  have n: "0 < n" "n \<le> length (drop off data)" and cs: "calls_in_buffer data cs"
    using Cons.prems(1) by (auto simp add: calls_in_buffer_def c)
  from Cons.prems(2) obtain r f1 where
    w: "ihex_write f a (drop off data) n = Some (r, f1)" "r \<noteq> 0"
    and rest: "run_writes ihex_write data cs (lines + r) f1 = Some (True, lines', f')"
    by (auto simp add: c split: option.splits if_splits)
  have res: "r = word_of_nat (length (records 32 a (take n (drop off data))))"
      "f1 = put f (ihex_text a (take n (drop off data)))"
    using ihex_write_nonzero [OF n w] by simp_all
  have cnt: "length (records 32 a (take n (drop off data))) = (n + 31) div 32"
    using n by (simp add: length_records min_def)
  show ?case
    using Cons.IH [OF cs rest] by (simp add: c res cnt written_put add.assoc)
qed

lemma unat_hi_u16: "unat (drop_bit 8 w AND 0xFF) = unat w div 256"
  for w :: u16
proof -
  have "unat w div 256 < 65536"
    using unat_u16_less [of w] by simp
  then show ?thesis
    by (simp add: and_ff_hi hi_byte_def unat_of_nat)
qed

lemma unat_lo_u16: "unat (w AND 0xFF) = unat w mod 256"
  for w :: u16
proof -
  have "unat w mod 256 < 65536"
    by (rule less_trans [of _ 256]) simp_all
  then show ?thesis
    by (simp add: and_ff_lo lo_byte_def unat_of_nat)
qed

definition pap_final :: "nat \<Rightarrow> string" where
  "pap_final l = '';00'' @ fmt_X 4 l @ fmt_X 4 (l div 256 + l mod 256) @ ''\<newline>''"

lemma pap_terminate_eq: "pap_terminate f lines = fprintf f (pap_final (unat lines))"
  by (simp only: pap_terminate_def pap_final_def unat_hi_u16) (simp only: unat_lo_u16)

lemma fprintf_True: "fprintf f s = (True, f') \<Longrightarrow> written f' = written f @ s"
  by (auto simp add: fprintf_def split: if_splits)

lemma output_hex_True:
  assumes "output_hex w t fopen data options data_size color_bits x_size y_size = Some (True, Some g)"
  shows "\<exists>f0 out lines. fopen (output_filename options) = Some f0 \<and>
           output_hex_planes w f0 data options data_size color_bits x_size y_size 0 0 =
             Some (True, lines, out) \<and>
           t out lines = (True, g)"
  using assms
  by (auto simp add: output_hex_def split: option.splits bool.splits prod.splits)

lemma ihex_terminate_eq:
  "ihex_terminate f lines =
     (if 12 \<le> room f then (True, put f '':00000001FF\<newline>'') else (False, f))"
  by (simp add: ihex_terminate_def fprintf_def put_def)

lemma length_pap_final: "l < 65536 \<Longrightarrow> length (pap_final l) = 12"
proof -
  assume l: "l < 65536"
  have "l div 256 < 256"
    using l by simp
  moreover have "l mod 256 < 256"
    by simp
  ultimately have "l div 256 + l mod 256 < 65536"
    by linarith
  then show ?thesis
    using l by (simp add: pap_final_def length_fmt_X_4)
qed

lemma pap_terminate_room:
  "pap_terminate f lines =
     (if 12 \<le> room f then (True, put f (pap_final (unat lines))) else (False, f))"
  using length_pap_final [OF unat_u16_less [of lines]]
  by (simp add: pap_terminate_eq fprintf_def put_def)

definition ihex_stream :: "u8 list \<Rightarrow> (u16 \<times> nat \<times> nat) list \<Rightarrow> string" where
  "ihex_stream data calls =
     concat (map (\<lambda>(a, off, n). ihex_text a (take n (drop off data))) calls)
     @ '':00000001FF\<newline>''"

definition pap_stream :: "u8 list \<Rightarrow> (u16 \<times> nat \<times> nat) list \<Rightarrow> string" where
  "pap_stream data calls =
     concat (map (\<lambda>(a, off, n). pap_text a (take n (drop off data))) calls)
     @ pap_final (sum_list (map (\<lambda>(a, off, n). (n + 23) div 24) calls) mod 65536)"

lemma count_nonzero: "0 < k \<Longrightarrow> k < 65536 \<Longrightarrow> (word_of_nat k :: u16) \<noteq> 0"
proof
  assume k: "0 < k" "k < 65536" and z: "(word_of_nat k :: u16) = 0"
  have "unat (word_of_nat k :: u16) = k"
    using k(2) by (simp add: unat_of_nat)
  then show False
    using k(1) z by simp
qed

lemma run_writes_ihex_fits:
  "calls_in_buffer data cs \<Longrightarrow> length data \<le> MAX_CARDS * CARD_MEMORY_SIZE \<Longrightarrow>
   length (concat (map (\<lambda>(a, off, n). ihex_text a (take n (drop off data))) cs)) \<le> room f \<Longrightarrow>
   run_writes ihex_write data cs lines f =
     Some (True, lines + word_of_nat (sum_list (map (\<lambda>(a, off, n). (n + 31) div 32) cs)),
           put f (concat (map (\<lambda>(a, off, n). ihex_text a (take n (drop off data))) cs)))"
proof (induction cs arbitrary: lines f)
  case Nil
  then show ?case by (simp add: put_Nil)
next
  case (Cons c cs)
  obtain a off n where c: "c = (a, off, n)"
    by (cases c) auto
  define T where "T = ihex_text a (take n (drop off data))"
  define R where "R = concat (map (\<lambda>(a, off, n). ihex_text a (take n (drop off data))) cs)"
  have n: "0 < n" "n \<le> length (drop off data)" and cs: "calls_in_buffer data cs"
    using Cons.prems(1) by (auto simp add: calls_in_buffer_def c)
  have small: "n \<le> 32768"
    using n(2) Cons.prems(2) by (simp add: MAX_CARDS_def CARD_MEMORY_SIZE_def)
  then have int: "n \<le> INT_MAX"
    by (simp add: INT_MAX_def)
  have room: "length T + length R \<le> room f"
    using Cons.prems(3) by (simp add: c T_def R_def)
  have cnt: "length (records 32 a (take n (drop off data))) = (n + 31) div 32"
    using n by (simp add: length_records min_def)
  have "n + 31 < 65536 * 32"
    using small by simp
  then have "(n + 31) div 32 < 65536"
    by (rule less_mult_imp_div_less)
  moreover have "0 < (n + 31) div 32"
    using n(1) by (simp add: div_greater_zero_iff)
  ultimately have "0 < (n + 31) div 32" and "(n + 31) div 32 < 65536"
    by simp_all
  then have nz: "(word_of_nat ((n + 31) div 32) :: u16) \<noteq> 0"
    by (rule count_nonzero)
  have w: "ihex_write f a (drop off data) n = Some (word_of_nat ((n + 31) div 32), put f T)"
    using ihex_write_result [OF n int, of a f] room by (simp add: T_def cnt)
  have "length R \<le> room (put f T)"
    using room by (simp add: room_put)
  from Cons.IH [OF cs Cons.prems(2) this [unfolded R_def]]
  have "run_writes ihex_write data cs (lines + word_of_nat ((n + 31) div 32)) (put f T) =
     Some (True, lines + word_of_nat ((n + 31) div 32)
                 + word_of_nat (sum_list (map (\<lambda>(a, off, n). (n + 31) div 32) cs)),
           put (put f T) R)"
    by (simp only: R_def)
  moreover have "put (put f T) R = put f (T @ R)"
    using room by (simp add: put_put)
  ultimately show ?case
    using nz by (simp add: c w T_def R_def add.assoc)
qed

lemma run_writes_pap_fits:
  "calls_in_buffer data cs \<Longrightarrow> length data \<le> MAX_CARDS * CARD_MEMORY_SIZE \<Longrightarrow>
   length (concat (map (\<lambda>(a, off, n). pap_text a (take n (drop off data))) cs)) \<le> room f \<Longrightarrow>
   run_writes pap_write data cs lines f =
     Some (True, lines + word_of_nat (sum_list (map (\<lambda>(a, off, n). (n + 23) div 24) cs)),
           put f (concat (map (\<lambda>(a, off, n). pap_text a (take n (drop off data))) cs)))"
proof (induction cs arbitrary: lines f)
  case Nil
  then show ?case by (simp add: put_Nil)
next
  case (Cons c cs)
  obtain a off n where c: "c = (a, off, n)"
    by (cases c) auto
  define T where "T = pap_text a (take n (drop off data))"
  define R where "R = concat (map (\<lambda>(a, off, n). pap_text a (take n (drop off data))) cs)"
  have n: "0 < n" "n \<le> length (drop off data)" and cs: "calls_in_buffer data cs"
    using Cons.prems(1) by (auto simp add: calls_in_buffer_def c)
  have small: "n \<le> 32768"
    using n(2) Cons.prems(2) by (simp add: MAX_CARDS_def CARD_MEMORY_SIZE_def)
  then have int: "n \<le> INT_MAX"
    by (simp add: INT_MAX_def)
  have room: "length T + length R \<le> room f"
    using Cons.prems(3) by (simp add: c T_def R_def)
  have cnt: "length (records 24 a (take n (drop off data))) = (n + 23) div 24"
    using n by (simp add: length_records min_def)
  have "n + 23 < 65536 * 24"
    using small by simp
  then have "(n + 23) div 24 < 65536"
    by (rule less_mult_imp_div_less)
  moreover have "0 < (n + 23) div 24"
    using n(1) by (simp add: div_greater_zero_iff)
  ultimately have "0 < (n + 23) div 24" and "(n + 23) div 24 < 65536"
    by simp_all
  then have nz: "(word_of_nat ((n + 23) div 24) :: u16) \<noteq> 0"
    by (rule count_nonzero)
  have w: "pap_write f a (drop off data) n = Some (word_of_nat ((n + 23) div 24), put f T)"
    using pap_write_result [OF n int, of a f] room by (simp add: T_def cnt)
  have "length R \<le> room (put f T)"
    using room by (simp add: room_put)
  from Cons.IH [OF cs Cons.prems(2) this [unfolded R_def]]
  have "run_writes pap_write data cs (lines + word_of_nat ((n + 23) div 24)) (put f T) =
     Some (True, lines + word_of_nat ((n + 23) div 24)
                 + word_of_nat (sum_list (map (\<lambda>(a, off, n). (n + 23) div 24) cs)),
           put (put f T) R)"
    by (simp only: R_def)
  moreover have "put (put f T) R = put f (T @ R)"
    using room by (simp add: put_put)
  ultimately show ?case
    using nz by (simp add: c w T_def R_def add.assoc)
qed

lemma output_ihex_fits:
  assumes "calls_in_buffer data (hex_calls options data_size color_bits x_size y_size)"
    and "length data \<le> MAX_CARDS * CARD_MEMORY_SIZE"
    and "fopen (output_filename options) = Some f0"
    and "length (ihex_stream data (hex_calls options data_size color_bits x_size y_size))
           \<le> room f0"
  shows "output_ihex fopen data options data_size color_bits x_size y_size =
     Some (True, Some (put f0
       (ihex_stream data (hex_calls options data_size color_bits x_size y_size))))"
proof -
  define calls where "calls = hex_calls options data_size color_bits x_size y_size"
  define T where "T = concat (map (\<lambda>(a, off, n). ihex_text a (take n (drop off data))) calls)"
  have room: "length T + 12 \<le> room f0"
    using assms(4) by (simp add: ihex_stream_def calls_def T_def)
  then have fits: "length T \<le> room f0"
    by simp
  have run: "output_hex_planes ihex_write f0 data options data_size color_bits x_size y_size 0 0 =
      Some (True, word_of_nat (sum_list (map (\<lambda>(a, off, n). (n + 31) div 32) calls)), put f0 T)"
    using run_writes_ihex_fits [OF assms(1) [folded calls_def] assms(2) fits [unfolded T_def], of 0]
    by (simp add: output_hex_planes_run hex_calls_def calls_def T_def)
  have t: "ihex_terminate (put f0 T) lines = (True, put f0 (T @ '':00000001FF\<newline>''))"
    for lines
    using room by (simp add: ihex_terminate_eq room_put put_put)
  show ?thesis
    by (simp add: output_ihex_def output_hex_def assms(3) run t ihex_stream_def
          calls_def [symmetric] T_def [symmetric])
qed

lemma output_pap_fits:
  assumes "calls_in_buffer data (hex_calls options data_size color_bits x_size y_size)"
    and "length data \<le> MAX_CARDS * CARD_MEMORY_SIZE"
    and "fopen (output_filename options) = Some f0"
    and "length (pap_stream data (hex_calls options data_size color_bits x_size y_size))
           \<le> room f0"
  shows "output_pap fopen data options data_size color_bits x_size y_size =
     Some (True, Some (put f0
       (pap_stream data (hex_calls options data_size color_bits x_size y_size))))"
proof -
  define calls where "calls = hex_calls options data_size color_bits x_size y_size"
  define T where "T = concat (map (\<lambda>(a, off, n). pap_text a (take n (drop off data))) calls)"
  define total where "total = sum_list (map (\<lambda>(a, off, n). (n + 23) div 24) calls)"
  have len: "length (pap_final (total mod 65536)) = 12"
    by (rule length_pap_final) simp
  have room: "length T + 12 \<le> room f0"
    using assms(4) len by (simp add: pap_stream_def calls_def T_def total_def)
  then have fits: "length T \<le> room f0"
    by simp
  have run: "output_hex_planes pap_write f0 data options data_size color_bits x_size y_size 0 0 =
      Some (True, word_of_nat total, put f0 T)"
    using run_writes_pap_fits [OF assms(1) [folded calls_def] assms(2) fits [unfolded T_def], of 0]
    by (simp add: output_hex_planes_run hex_calls_def calls_def T_def total_def)
  have t: "pap_terminate (put f0 T) (word_of_nat total) =
      (True, put f0 (T @ pap_final (total mod 65536)))"
    using room by (simp add: pap_terminate_room room_put put_put unat_of_nat)
  show ?thesis
    by (simp add: output_pap_def output_hex_def assms(3) run t pap_stream_def
          calls_def [symmetric] T_def [symmetric] total_def [symmetric])
qed

text \<open>
  Claim C6. The Intel-hex terminator writes \<open>:00000001FF\<close> and a newline whatever the
  line count is; it fails only when the stream has no room for these 12 characters.
  The papertape terminator writes \<open>;00\<close>, the 16-bit line count in 4 hex digits, the
  sum of the two bytes of that count in 4 hex digits, and a newline. A run of
  \<open>output_ihex\<close> or \<open>output_pap\<close> whose calls stay inside the buffer of the program
  succeeds when the file can be opened and has room, and the stream is then the
  records of the calls followed by the terminator; the papertape count is the number of
  records in the stream. Every successful run ends with the terminator line: for
  papertape the count in it is the sum of the counts that the calls of \<open>pap_write\<close>
  returned.
\<close>

theorem C6_stream_terminators:
  "(\<forall>f lines. ihex_terminate f lines =
      (if 12 \<le> room f then (True, f\<lparr>written := written f @ '':00000001FF\<newline>'',
                                      room := room f - 12\<rparr>)
       else (False, f))) \<and>
   (\<forall>f lines. pap_terminate f lines =
      (if 12 \<le> room f
       then (True, f\<lparr>written := written f @ '';00'' @ fmt_X 4 (unat lines)
                        @ fmt_X 4 (unat lines div 256 + unat lines mod 256) @ ''\<newline>'',
                      room := room f - 12\<rparr>)
       else (False, f))) \<and>
   (calls_in_buffer data (hex_calls options data_size color_bits x_size y_size) \<and>
    length data \<le> MAX_CARDS * CARD_MEMORY_SIZE \<and>
    fopen (output_filename options) = Some output_file \<and>
    length (ihex_stream data (hex_calls options data_size color_bits x_size y_size)) \<le> room output_file
    \<longrightarrow>
      (\<exists>g'. output_ihex fopen data options data_size color_bits x_size y_size =
               Some (True, Some g') \<and>
             written g' = written output_file
               @ concat (map (\<lambda>(a, off, n). ihex_text a (take n (drop off data)))
                   (hex_calls options data_size color_bits x_size y_size))
               @ '':00000001FF\<newline>'')) \<and>
   (calls_in_buffer data (hex_calls options data_size color_bits x_size y_size) \<and>
    length data \<le> MAX_CARDS * CARD_MEMORY_SIZE \<and>
    fopen (output_filename options) = Some output_file \<and>
    length (pap_stream data (hex_calls options data_size color_bits x_size y_size)) \<le> room output_file
    \<longrightarrow>
      (\<exists>g' total.
         output_pap fopen data options data_size color_bits x_size y_size =
           Some (True, Some g') \<and>
         total = sum_list (map (\<lambda>(a, off, n). (n + 23) div 24)
                   (hex_calls options data_size color_bits x_size y_size)) mod 65536 \<and>
         written g' = written output_file
           @ concat (map (\<lambda>(a, off, n). pap_text a (take n (drop off data)))
               (hex_calls options data_size color_bits x_size y_size))
           @ '';00'' @ fmt_X 4 total @ fmt_X 4 (total div 256 + total mod 256)
           @ ''\<newline>'')) \<and>
   (output_ihex fopen data options data_size color_bits x_size y_size = Some (True, Some g) \<longrightarrow>
      (\<exists>pre. written g = pre @ '':00000001FF\<newline>'')) \<and>
   (output_pap fopen data options data_size color_bits x_size y_size = Some (True, Some g) \<longrightarrow>
      (\<exists>f0 out lines.
         fopen (output_filename options) = Some f0 \<and>
         output_hex_planes pap_write f0 data options data_size color_bits x_size y_size 0 0 =
           Some (True, lines, out) \<and>
         lines = sum_list (returned_counts pap_write data
                   (hex_calls options data_size color_bits x_size y_size) f0) \<and>
         written g = written out @ '';00'' @ fmt_X 4 (unat lines)
           @ fmt_X 4 (unat lines div 256 + unat lines mod 256) @ ''\<newline>'')) \<and>
   (calls_in_buffer data (hex_calls options data_size color_bits x_size y_size) \<and>
    output_pap fopen data options data_size color_bits x_size y_size = Some (True, Some g) \<longrightarrow>
      (\<exists>f0 total.
         fopen (output_filename options) = Some f0 \<and>
         total = sum_list (map (\<lambda>(a, off, n). (n + 23) div 24)
                   (hex_calls options data_size color_bits x_size y_size)) mod 65536 \<and>
         written g = written f0
           @ concat (map (\<lambda>(a, off, n). pap_text a (take n (drop off data)))
               (hex_calls options data_size color_bits x_size y_size))
           @ '';00'' @ fmt_X 4 total @ fmt_X 4 (total div 256 + total mod 256) @ ''\<newline>''))"
proof (intro conjI allI impI)
  fix f lines
  show "ihex_terminate f lines =
      (if 12 \<le> room f then (True, f\<lparr>written := written f @ '':00000001FF\<newline>'',
                                      room := room f - 12\<rparr>)
       else (False, f))"
    by (simp add: ihex_terminate_eq put_def)
next
  fix f and lines :: u16
  have "length (pap_final (unat lines)) = 12"
    by (rule length_pap_final [OF unat_u16_less])
  then show "pap_terminate f lines =
      (if 12 \<le> room f
       then (True, f\<lparr>written := written f @ '';00'' @ fmt_X 4 (unat lines)
                        @ fmt_X 4 (unat lines div 256 + unat lines mod 256) @ ''\<newline>'',
                      room := room f - 12\<rparr>)
       else (False, f))"
    by (simp add: pap_terminate_room put_def) (simp add: pap_final_def)
next
  assume a: "calls_in_buffer data (hex_calls options data_size color_bits x_size y_size) \<and>
    length data \<le> MAX_CARDS * CARD_MEMORY_SIZE \<and>
    fopen (output_filename options) = Some output_file \<and>
    length (ihex_stream data (hex_calls options data_size color_bits x_size y_size)) \<le> room output_file"
  have "output_ihex fopen data options data_size color_bits x_size y_size =
     Some (True, Some (put output_file
       (ihex_stream data (hex_calls options data_size color_bits x_size y_size))))"
    using a by (intro output_ihex_fits) simp_all
  then show "\<exists>g'. output_ihex fopen data options data_size color_bits x_size y_size =
               Some (True, Some g') \<and>
             written g' = written output_file
               @ concat (map (\<lambda>(a, off, n). ihex_text a (take n (drop off data)))
                   (hex_calls options data_size color_bits x_size y_size))
               @ '':00000001FF\<newline>''"
    by (simp add: written_put ihex_stream_def)
next
  assume a: "calls_in_buffer data (hex_calls options data_size color_bits x_size y_size) \<and>
    length data \<le> MAX_CARDS * CARD_MEMORY_SIZE \<and>
    fopen (output_filename options) = Some output_file \<and>
    length (pap_stream data (hex_calls options data_size color_bits x_size y_size)) \<le> room output_file"
  have "output_pap fopen data options data_size color_bits x_size y_size =
     Some (True, Some (put output_file
       (pap_stream data (hex_calls options data_size color_bits x_size y_size))))"
    using a by (intro output_pap_fits) simp_all
  then show "\<exists>g' total.
         output_pap fopen data options data_size color_bits x_size y_size =
           Some (True, Some g') \<and>
         total = sum_list (map (\<lambda>(a, off, n). (n + 23) div 24)
                   (hex_calls options data_size color_bits x_size y_size)) mod 65536 \<and>
         written g' = written output_file
           @ concat (map (\<lambda>(a, off, n). pap_text a (take n (drop off data)))
               (hex_calls options data_size color_bits x_size y_size))
           @ '';00'' @ fmt_X 4 total @ fmt_X 4 (total div 256 + total mod 256)
           @ ''\<newline>''"
    by (simp add: written_put pap_stream_def pap_final_def)
next
  assume A: "output_ihex fopen data options data_size color_bits x_size y_size = Some (True, Some g)"
  from output_hex_True [OF A [unfolded output_ihex_def]]
  obtain out lines where "ihex_terminate out lines = (True, g)"
    by blast
  then have "written g = written out @ '':00000001FF\<newline>''"
    by (simp add: ihex_terminate_def fprintf_True)
  then show "\<exists>pre. written g = pre @ '':00000001FF\<newline>''"
    by blast
next
  assume A: "output_pap fopen data options data_size color_bits x_size y_size = Some (True, Some g)"
  from output_hex_True [OF A [unfolded output_pap_def]]
  obtain f0 out lines where
    o: "fopen (output_filename options) = Some f0"
      "output_hex_planes pap_write f0 data options data_size color_bits x_size y_size 0 0 =
         Some (True, lines, out)"
      "pap_terminate out lines = (True, g)"
    by blast
  have "lines = sum_list (returned_counts pap_write data
                   (hex_calls options data_size color_bits x_size y_size) f0)"
    using o(2) run_writes_total [of pap_write data _ 0 f0 lines out]
    by (simp add: output_hex_planes_run hex_calls_def)
  moreover have "written g = written out @ '';00'' @ fmt_X 4 (unat lines)
           @ fmt_X 4 (unat lines div 256 + unat lines mod 256) @ ''\<newline>''"
    using o(3) fprintf_True [of out "pap_final (unat lines)" g]
    by (simp add: pap_terminate_eq pap_final_def)
  ultimately show "\<exists>f0 out lines.
         fopen (output_filename options) = Some f0 \<and>
         output_hex_planes pap_write f0 data options data_size color_bits x_size y_size 0 0 =
           Some (True, lines, out) \<and>
         lines = sum_list (returned_counts pap_write data
                   (hex_calls options data_size color_bits x_size y_size) f0) \<and>
         written g = written out @ '';00'' @ fmt_X 4 (unat lines)
           @ fmt_X 4 (unat lines div 256 + unat lines mod 256) @ ''\<newline>''"
    using o(1,2) by blast
next
  assume a: "calls_in_buffer data (hex_calls options data_size color_bits x_size y_size) \<and>
    output_pap fopen data options data_size color_bits x_size y_size = Some (True, Some g)"
  then have A: "output_pap fopen data options data_size color_bits x_size y_size = Some (True, Some g)"
    by simp
  from output_hex_True [OF A [unfolded output_pap_def]]
  obtain f0 out lines where
    o: "fopen (output_filename options) = Some f0"
      "output_hex_planes pap_write f0 data options data_size color_bits x_size y_size 0 0 =
         Some (True, lines, out)"
      "pap_terminate out lines = (True, g)"
    by blast
  define calls where "calls = hex_calls options data_size color_bits x_size y_size"
  have run: "run_writes pap_write data calls 0 f0 = Some (True, lines, out)"
    using o(2) by (simp add: output_hex_planes_run hex_calls_def calls_def)
  have cb: "calls_in_buffer data calls"
    using a by (simp add: calls_def)
  note R = run_writes_pap [OF cb run]
  have l: "unat lines = sum_list (map (\<lambda>(a, off, n). (n + 23) div 24) calls) mod 65536"
    using R by (simp add: unat_of_nat)
  have "written g = written out @ pap_final (unat lines)"
    using o(3) fprintf_True [of out "pap_final (unat lines)" g]
    by (simp add: pap_terminate_eq)
  then have "written g = written f0
           @ concat (map (\<lambda>(a, off, n). pap_text a (take n (drop off data))) calls)
           @ pap_final (sum_list (map (\<lambda>(a, off, n). (n + 23) div 24) calls) mod 65536)"
    using R l by simp
  then show "\<exists>f0 total.
         fopen (output_filename options) = Some f0 \<and>
         total = sum_list (map (\<lambda>(a, off, n). (n + 23) div 24)
                   (hex_calls options data_size color_bits x_size y_size)) mod 65536 \<and>
         written g = written f0
           @ concat (map (\<lambda>(a, off, n). pap_text a (take n (drop off data)))
               (hex_calls options data_size color_bits x_size y_size))
           @ '';00'' @ fmt_X 4 total @ fmt_X 4 (total div 256 + total mod 256) @ ''\<newline>''"
    using o(1) by (simp add: calls_def pap_final_def)
qed

lemma sample_calls:
  "hex_calls \<lparr>base_address = 0x2000, output_filename = ''a.pap''\<rparr> 1 1 8 1 = [(0x2000, 0, 1)]"
  by (simp add: hex_calls_def plane_calls_def MAX_COL_BYTES_def CARD_MEMORY_SIZE_def)

lemma pap_sample:
  "output_pap (\<lambda>name. Some \<lparr>written = [], room = 100\<rparr>) [0x0F]
     \<lparr>base_address = 0x2000, output_filename = ''a.pap''\<rparr> 1 1 8 1 =
   Some (True, Some \<lparr>written = '';0120000F0030\<newline>;0000010001\<newline>'', room = 74\<rparr>)"
proof -
  have run: "run_writes pap_write [0x0F] [(0x2000, 0, 1)] 0 \<lparr>written = [], room = 100\<rparr> =
      Some (True, 1, \<lparr>written = '';0120000F0030\<newline>'', room = 86\<rparr>)"
    using pap_write_one by simp
  have "output_hex_planes pap_write \<lparr>written = [], room = 100\<rparr> [0x0F]
      \<lparr>base_address = 0x2000, output_filename = ''a.pap''\<rparr> 1 1 8 1 0 0 =
      run_writes pap_write [0x0F]
        (hex_calls \<lparr>base_address = 0x2000, output_filename = ''a.pap''\<rparr> 1 1 8 1) 0
        \<lparr>written = [], room = 100\<rparr>"
    by (simp only: output_hex_planes_run hex_calls_def)
  then have planes: "output_hex_planes pap_write \<lparr>written = [], room = 100\<rparr> [0x0F]
      \<lparr>base_address = 0x2000, output_filename = ''a.pap''\<rparr> 1 1 8 1 0 0 =
      Some (True, 1, \<lparr>written = '';0120000F0030\<newline>'', room = 86\<rparr>)"
    by (simp only: sample_calls run)
  have t: "pap_terminate \<lparr>written = '';0120000F0030\<newline>'', room = 86\<rparr> 1 =
      (True, \<lparr>written = '';0120000F0030\<newline>;0000010001\<newline>'', room = 74\<rparr>)"
    by (simp add: pap_terminate_eq pap_final_def fprintf_def fmt_X_def to_hex.simps
          hex_digit_def replicate_num)
  show ?thesis
    by (simp only: output_pap_def output_hex_def planes t option.case prod.case bool.case)
qed

lemma ihex_sample:
  "output_ihex (\<lambda>name. Some \<lparr>written = [], room = 100\<rparr>) [0x0F]
     \<lparr>base_address = 0x2000, output_filename = ''a.pap''\<rparr> 1 1 8 1 =
   Some (True, Some \<lparr>written = '':012000000FD0\<newline>:00000001FF\<newline>'', room = 74\<rparr>)"
proof -
  have run: "run_writes ihex_write [0x0F] [(0x2000, 0, 1)] 0 \<lparr>written = [], room = 100\<rparr> =
      Some (True, 1, \<lparr>written = '':012000000FD0\<newline>'', room = 86\<rparr>)"
    using ihex_write_one by simp
  have "output_hex_planes ihex_write \<lparr>written = [], room = 100\<rparr> [0x0F]
      \<lparr>base_address = 0x2000, output_filename = ''a.pap''\<rparr> 1 1 8 1 0 0 =
      run_writes ihex_write [0x0F]
        (hex_calls \<lparr>base_address = 0x2000, output_filename = ''a.pap''\<rparr> 1 1 8 1) 0
        \<lparr>written = [], room = 100\<rparr>"
    by (simp only: output_hex_planes_run hex_calls_def)
  then have planes: "output_hex_planes ihex_write \<lparr>written = [], room = 100\<rparr> [0x0F]
      \<lparr>base_address = 0x2000, output_filename = ''a.pap''\<rparr> 1 1 8 1 0 0 =
      Some (True, 1, \<lparr>written = '':012000000FD0\<newline>'', room = 86\<rparr>)"
    by (simp only: sample_calls run)
  have t: "ihex_terminate \<lparr>written = '':012000000FD0\<newline>'', room = 86\<rparr> 1 =
      (True, \<lparr>written = '':012000000FD0\<newline>:00000001FF\<newline>'', room = 74\<rparr>)"
    by (simp add: ihex_terminate_def fprintf_def)
  show ?thesis
    by (simp only: output_ihex_def output_hex_def planes t option.case prod.case bool.case)
qed

theorem C6_stream_terminators_witness:
  "calls_in_buffer [0x0F] (hex_calls \<lparr>base_address = 0x2000, output_filename = ''a.pap''\<rparr> 1 1 8 1) \<and>
   length [0x0F :: u8] \<le> MAX_CARDS * CARD_MEMORY_SIZE \<and>
   (\<lambda>name. Some \<lparr>written = [], room = 100\<rparr>) (output_filename \<lparr>base_address = 0x2000, output_filename = ''a.pap''\<rparr>) = Some \<lparr>written = [], room = 100\<rparr> \<and>
   length (ihex_stream [0x0F] (hex_calls \<lparr>base_address = 0x2000, output_filename = ''a.pap''\<rparr> 1 1 8 1)) \<le> room \<lparr>written = [], room = 100\<rparr> \<and>
   (\<exists>g'. output_ihex (\<lambda>name. Some \<lparr>written = [], room = 100\<rparr>) [0x0F] \<lparr>base_address = 0x2000, output_filename = ''a.pap''\<rparr> 1 1 8 1 = Some (True, Some g') \<and>
      written g' = written \<lparr>written = [], room = 100\<rparr>
        @ concat (map (\<lambda>(a, off, n). ihex_text a (take n (drop off [0x0F])))
            (hex_calls \<lparr>base_address = 0x2000, output_filename = ''a.pap''\<rparr> 1 1 8 1))
        @ '':00000001FF\<newline>'') \<and>
   output_ihex (\<lambda>name. Some \<lparr>written = [], room = 100\<rparr>) [0x0F] \<lparr>base_address = 0x2000, output_filename = ''a.pap''\<rparr> 1 1 8 1 =
     Some (True, Some \<lparr>written = '':012000000FD0\<newline>:00000001FF\<newline>'', room = 74\<rparr>) \<and>
   length (pap_stream [0x0F] (hex_calls \<lparr>base_address = 0x2000, output_filename = ''a.pap''\<rparr> 1 1 8 1)) \<le> room \<lparr>written = [], room = 100\<rparr> \<and>
   (\<exists>g' total.
      output_pap (\<lambda>name. Some \<lparr>written = [], room = 100\<rparr>) [0x0F] \<lparr>base_address = 0x2000, output_filename = ''a.pap''\<rparr> 1 1 8 1 = Some (True, Some g') \<and>
      total = sum_list (map (\<lambda>(a, off, n). (n + 23) div 24) (hex_calls \<lparr>base_address = 0x2000, output_filename = ''a.pap''\<rparr> 1 1 8 1))
              mod 65536 \<and>
      written g' = written \<lparr>written = [], room = 100\<rparr>
        @ concat (map (\<lambda>(a, off, n). pap_text a (take n (drop off [0x0F])))
            (hex_calls \<lparr>base_address = 0x2000, output_filename = ''a.pap''\<rparr> 1 1 8 1))
        @ '';00'' @ fmt_X 4 total @ fmt_X 4 (total div 256 + total mod 256) @ ''\<newline>'') \<and>
   output_pap (\<lambda>name. Some \<lparr>written = [], room = 100\<rparr>) [0x0F] \<lparr>base_address = 0x2000, output_filename = ''a.pap''\<rparr> 1 1 8 1 =
     Some (True, Some \<lparr>written = '';0120000F0030\<newline>;0000010001\<newline>'', room = 74\<rparr>)"
proof -
  have c: "calls_in_buffer [0x0F] (hex_calls \<lparr>base_address = 0x2000, output_filename = ''a.pap''\<rparr> 1 1 8 1)"
    by (simp only: sample_calls calls_in_buffer_def) simp
  have l: "length [0x0F :: u8] \<le> MAX_CARDS * CARD_MEMORY_SIZE"
    by (simp add: MAX_CARDS_def CARD_MEMORY_SIZE_def)
  have o: "(\<lambda>name. Some \<lparr>written = [], room = 100\<rparr>) (output_filename \<lparr>base_address = 0x2000, output_filename = ''a.pap''\<rparr>) = Some \<lparr>written = [], room = 100\<rparr>"
    by simp
  have ri: "length (ihex_stream [0x0F] (hex_calls \<lparr>base_address = 0x2000, output_filename = ''a.pap''\<rparr> 1 1 8 1)) \<le> room \<lparr>written = [], room = 100\<rparr>"
    by (simp only: sample_calls ihex_stream_def) (simp add: length_ihex_text)
  have rp: "length (pap_stream [0x0F] (hex_calls \<lparr>base_address = 0x2000, output_filename = ''a.pap''\<rparr> 1 1 8 1)) \<le> room \<lparr>written = [], room = 100\<rparr>"
    by (simp only: sample_calls pap_stream_def) (simp add: length_pap_text length_pap_final)
  note T = C6_stream_terminators
    [where data = "[0x0F]" and options = "\<lparr>base_address = 0x2000, output_filename = ''a.pap''\<rparr>" and data_size = 1 and color_bits = 1
       and x_size = 8 and y_size = 1 and fopen = "\<lambda>name. Some \<lparr>written = [], room = 100\<rparr>" and output_file = "\<lparr>written = [], room = 100\<rparr>"]
  note Ti = T [THEN conjunct2, THEN conjunct2, THEN conjunct1, THEN mp,
               OF conjI [OF c conjI [OF l conjI [OF o ri]]]]
  note Tp = T [THEN conjunct2, THEN conjunct2, THEN conjunct2, THEN conjunct1, THEN mp,
               OF conjI [OF c conjI [OF l conjI [OF o rp]]]]
  show ?thesis
    using c l o ri Ti ihex_sample rp Tp pap_sample by (intro conjI)
qed

definition row_calls :: "options_t \<Rightarrow> nat \<Rightarrow> nat \<Rightarrow> nat \<Rightarrow> (u16 \<times> nat \<times> nat) list" where
  "row_calls options color_bits x_size y_size =
     concat (map (\<lambda>b. map (\<lambda>r.
        (base_address options + word_of_nat (b * CARD_MEMORY_SIZE) + word_of_nat (r * MAX_COL_BYTES),
         b * CARD_MEMORY_SIZE + r * ((x_size + 7) div 8),
         (x_size + 7) div 8)) [0..<y_size]) [0..<color_bits])"

lemma hex_calls_rows:
  assumes "x_size \<le> (MAX_COL_BYTES - 1) * 8" and "color_bits \<le> 8"
  shows "hex_calls options data_size color_bits x_size y_size =
         row_calls options color_bits x_size y_size"
proof -
  have "plane_calls options data_size x_size y_size b =
        map (\<lambda>r.
          (base_address options + word_of_nat (b * CARD_MEMORY_SIZE) + word_of_nat (r * MAX_COL_BYTES),
           b * CARD_MEMORY_SIZE + r * ((x_size + 7) div 8),
           (x_size + 7) div 8)) [0..<y_size]"
    if "b < color_bits" for b
  proof -
    have "b * CARD_MEMORY_SIZE < 65536"
      using that assms(2) by (simp add: CARD_MEMORY_SIZE_def)
    then have "unat (word_of_nat (b * CARD_MEMORY_SIZE) :: u16) = b * CARD_MEMORY_SIZE"
      by (simp only: unat_of_nat) simp
    then show ?thesis
      using assms(1) by (simp add: plane_calls_def Let_def)
  qed
  then show ?thesis
    unfolding hex_calls_def row_calls_def
    by (intro arg_cong [where f = concat] map_cong) simp_all
qed

text \<open>
  Claim C3. For an image at most 312 pixels wide, \<open>output_hex\<close> makes one call of the
  writer per plane \<open>b\<close> and row \<open>r\<close>, planes outermost, each for exactly
  \<open>ceil(x_size / 8)\<close> bytes taken from offset \<open>b * 8192 + r * ceil(x_size / 8)\<close> of the
  buffer, with start address \<open>base_address + b * 8192 + r * 40\<close> in 16-bit arithmetic.
  Each call opens a record of its own: the stream of a successful run is the
  concatenation of the record texts of the rows. (\<open>cbit_offset\<close> is a \<open>uint16_t\<close>: it
  is \<open>b * 8192\<close> for the planes 0 to 7; the program has at most 4.)
\<close>

theorem C3_row_mode:
  assumes "x_size \<le> (MAX_COL_BYTES - 1) * 8" and "color_bits \<le> 8"
  shows "output_hex_planes write_fn f data options data_size color_bits x_size y_size 0 0 =
           run_writes write_fn data (row_calls options color_bits x_size y_size) 0 f \<and>
         (calls_in_buffer data (row_calls options color_bits x_size y_size) \<and>
          output_hex_planes ihex_write f data options data_size color_bits x_size y_size 0 0 =
            Some (True, lines, f') \<longrightarrow>
            written f' = written f @
              concat (map (\<lambda>(a, off, n). ihex_text a (take n (drop off data)))
                (row_calls options color_bits x_size y_size))) \<and>
         (calls_in_buffer data (row_calls options color_bits x_size y_size) \<and>
          output_hex_planes pap_write f data options data_size color_bits x_size y_size 0 0 =
            Some (True, lines, f') \<longrightarrow>
            written f' = written f @
              concat (map (\<lambda>(a, off, n). pap_text a (take n (drop off data)))
                (row_calls options color_bits x_size y_size))) \<and>
         row_calls options color_bits x_size y_size =
           concat (map (\<lambda>b. map (\<lambda>r.
             (base_address options + word_of_nat (b * 8192) + word_of_nat (r * 40),
              b * 8192 + r * ((x_size + 7) div 8),
              (x_size + 7) div 8)) [0..<y_size]) [0..<color_bits])"
proof -
  have run: "output_hex_planes w f data options data_size color_bits x_size y_size 0 0 =
           run_writes w data (row_calls options color_bits x_size y_size) 0 f" for w
    using hex_calls_rows [OF assms, of options data_size y_size]
    by (simp add: output_hex_planes_run hex_calls_def)
  have i: "written f' = written f @
              concat (map (\<lambda>(a, off, n). ihex_text a (take n (drop off data)))
                (row_calls options color_bits x_size y_size))"
    if "calls_in_buffer data (row_calls options color_bits x_size y_size) \<and>
          output_hex_planes ihex_write f data options data_size color_bits x_size y_size 0 0 =
            Some (True, lines, f')"
    using that run_writes_ihex [of data _ 0 f lines f'] by (simp add: run)
  have p: "written f' = written f @
              concat (map (\<lambda>(a, off, n). pap_text a (take n (drop off data)))
                (row_calls options color_bits x_size y_size))"
    if "calls_in_buffer data (row_calls options color_bits x_size y_size) \<and>
          output_hex_planes pap_write f data options data_size color_bits x_size y_size 0 0 =
            Some (True, lines, f')"
    using that run_writes_pap [of data _ 0 f lines f'] by (simp add: run)
  have d: "row_calls options color_bits x_size y_size =
           concat (map (\<lambda>b. map (\<lambda>r.
             (base_address options + word_of_nat (b * 8192) + word_of_nat (r * 40),
              b * 8192 + r * ((x_size + 7) div 8),
              (x_size + 7) div 8)) [0..<y_size]) [0..<color_bits])"
    by (simp add: row_calls_def CARD_MEMORY_SIZE_def MAX_COL_BYTES_def)
  show ?thesis
    using run [of write_fn] i p d by (intro conjI impI)
qed

lemma ihex_write_two:
  "ihex_write \<lparr>written = '':012000000FD0\<newline>'', room = 86\<rparr> 0x2028 [0xF0] 1 =
     Some (1, \<lparr>written = '':012000000FD0\<newline>:01202800F0C7\<newline>'', room = 72\<rparr>)"
  by (simp add: writer_eval)

lemma row_calls_sample:
  "row_calls \<lparr>base_address = 0x2000, output_filename = ''a.hex''\<rparr> 1 8 2 =
     [(0x2000, 0, 1), (0x2028, 1, 1)]"
  by (simp add: row_calls_def CARD_MEMORY_SIZE_def MAX_COL_BYTES_def upt_conv_Cons)

lemma row_run_sample:
  "run_writes ihex_write [0x0F, 0xF0] [(0x2000, 0, 1), (0x2028, 1, 1)] 0
     \<lparr>written = [], room = 100\<rparr> =
   Some (True, 2, \<lparr>written = '':012000000FD0\<newline>:01202800F0C7\<newline>'', room = 72\<rparr>)"
proof -
  have 1: "ihex_write \<lparr>written = [], room = 100\<rparr> 0x2000 [0x0F, 0xF0] 1 =
     Some (1, \<lparr>written = '':012000000FD0\<newline>'', room = 86\<rparr>)"
    by (simp add: writer_eval)
  show ?thesis
    using 1 ihex_write_two by simp
qed

theorem C3_row_mode_witness:
  "(8::nat) \<le> (MAX_COL_BYTES - 1) * 8 \<and> (1::nat) \<le> 8 \<and>
   row_calls \<lparr>base_address = 0x2000, output_filename = ''a.hex''\<rparr> 1 8 2 =
     [(0x2000, 0, 1), (0x2028, 1, 1)] \<and>
   calls_in_buffer [0x0F, 0xF0]
     (row_calls \<lparr>base_address = 0x2000, output_filename = ''a.hex''\<rparr> 1 8 2) \<and>
   output_hex_planes ihex_write \<lparr>written = [], room = 100\<rparr> [0x0F, 0xF0]
       \<lparr>base_address = 0x2000, output_filename = ''a.hex''\<rparr> 2 1 8 2 0 0 =
     Some (True, 2, \<lparr>written = '':012000000FD0\<newline>:01202800F0C7\<newline>'', room = 72\<rparr>) \<and>
   written \<lparr>written = '':012000000FD0\<newline>:01202800F0C7\<newline>'', room = 72\<rparr> =
     written \<lparr>written = [], room = 100\<rparr> @
       concat (map (\<lambda>(a, off, n). ihex_text a (take n (drop off [0x0F, 0xF0])))
         (row_calls \<lparr>base_address = 0x2000, output_filename = ''a.hex''\<rparr> 1 8 2))"
proof -
  have h: "(8::nat) \<le> (MAX_COL_BYTES - 1) * 8" "(1::nat) \<le> 8"
    by (simp_all add: MAX_COL_BYTES_def)
  note T = C3_row_mode [OF h, of _ "\<lparr>written = [], room = 100\<rparr>" "[0x0F, 0xF0]"
              "\<lparr>base_address = 0x2000, output_filename = ''a.hex''\<rparr>" 2 2 2
              "\<lparr>written = '':012000000FD0\<newline>:01202800F0C7\<newline>'', room = 72\<rparr>"]
  have c: "calls_in_buffer [0x0F, 0xF0]
     (row_calls \<lparr>base_address = 0x2000, output_filename = ''a.hex''\<rparr> 1 8 2)"
    by (simp only: row_calls_sample calls_in_buffer_def) simp
  have r: "output_hex_planes ihex_write \<lparr>written = [], room = 100\<rparr> [0x0F, 0xF0]
       \<lparr>base_address = 0x2000, output_filename = ''a.hex''\<rparr> 2 1 8 2 0 0 =
     Some (True, 2, \<lparr>written = '':012000000FD0\<newline>:01202800F0C7\<newline>'', room = 72\<rparr>)"
    using T [of ihex_write, THEN conjunct1] by (simp only: row_calls_sample row_run_sample)
  show ?thesis
    using h row_calls_sample c r
      T [of ihex_write, THEN conjunct2, THEN conjunct1, THEN mp, OF conjI [OF c r]]
    by (intro conjI)
qed

section \<open>The bit planes of \<open>convert_to_layers\<close>\<close>

definition row_bytes :: "nat \<Rightarrow> nat" where
  "row_bytes x_size = (x_size + 7) div 8"

definition pixel_bit :: "u8 list \<Rightarrow> nat \<Rightarrow> nat \<Rightarrow> nat \<Rightarrow> nat \<Rightarrow> nat \<Rightarrow> u8" where
  "pixel_bit raw x_size y x cbit p =
     push_bit (7 - p) (drop_bit cbit (raw ! (y * x_size + x + p)) AND 1)"

definition group_byte :: "u8 list \<Rightarrow> nat \<Rightarrow> nat \<Rightarrow> nat \<Rightarrow> nat \<Rightarrow> u8" where
  "group_byte raw x_size y x cbit =
     foldl (OR) 0 (map (pixel_bit raw x_size y x cbit) (filter (\<lambda>p. x + p < x_size) [0..<8]))"

lemma pixel_loop_eq:
  assumes "c + CARD_MEMORY_SIZE * cbit < length binary"
    and "\<forall>p<8. x + p < x_size \<longrightarrow> y * x_size + x + p < length raw"
  shows "pixel_loop raw binary c cbit x_size y x pixel =
         Some (binary[c + CARD_MEMORY_SIZE * cbit :=
                 foldl (OR) (binary ! (c + CARD_MEMORY_SIZE * cbit))
                   (map (pixel_bit raw x_size y x cbit)
                      (filter (\<lambda>p. x + p < x_size) [pixel..<8]))])"
  using assms(1)
proof (induction "8 - pixel" arbitrary: pixel binary)
  case 0
  then show ?case
    by (subst pixel_loop.simps) simp
next
  case (Suc d)
  then have p8: "pixel < 8" and d: "d = 8 - (pixel + 1)"
    by auto
  let ?i = "c + CARD_MEMORY_SIZE * cbit"
  show ?case
  proof (cases "x + pixel < x_size")
    case False
    then have "filter (\<lambda>p. x + p < x_size) [pixel..<8] = []"
      by (auto simp add: filter_empty_conv)
    then show ?thesis
      using False by (subst pixel_loop.simps) simp
  next
    case True
    let ?b = "binary[?i := binary ! ?i OR pixel_bit raw x_size y x cbit pixel]"
    have len: "?i < length ?b"
      using Suc.prems by simp
    have r: "rd raw (y * x_size + x + pixel) = Some (raw ! (y * x_size + x + pixel))"
      using assms(2) p8 True by (simp add: rd_def)
    have step: "pixel_loop raw binary c cbit x_size y x pixel =
                pixel_loop raw ?b c cbit x_size y x (pixel + 1)"
      using p8 True Suc.prems r
      by (subst pixel_loop.simps) (simp add: rd_def pixel_bit_def)
    have f: "filter (\<lambda>p. x + p < x_size) [pixel..<8] =
             pixel # filter (\<lambda>p. x + p < x_size) [pixel + 1..<8]"
      using p8 True by (simp add: upt_conv_Cons)
    show ?thesis
      using Suc.hyps(1) [OF d len] Suc.prems
      by (simp add: step f)
  qed
qed

lemma bit_foldl_or:
  "bit (foldl (OR) a xs) q \<longleftrightarrow> bit a q \<or> (\<exists>v\<in>set xs. bit v q)"
  for a :: "'a::len word"
  by (induction xs arbitrary: a) (auto simp add: bit_or_iff)

lemma bit_pixel_bit:
  "p < 8 \<Longrightarrow> bit (pixel_bit raw x_size y x cbit p) q \<longleftrightarrow>
     q = 7 - p \<and> bit (raw ! (y * x_size + x + p)) cbit"
proof -
  assume p: "p < 8"
  define v where "v = raw ! (y * x_size + x + p)"
  have e: "drop_bit cbit v AND 1 = of_bool (bit v cbit)"
    by (simp add: and_one_eq bit_iff_odd_drop_bit mod_2_eq_odd)
  show ?thesis
    unfolding pixel_bit_def v_def [symmetric] e
    using p by (cases "bit v cbit") (auto simp add: bit_push_bit_iff bit_1_iff bit_exp_iff)
qed

lemma bit_group_byte:
  "bit (group_byte raw x_size y x cbit) q \<longleftrightarrow>
     q < 8 \<and> x + (7 - q) < x_size \<and> bit (raw ! (y * x_size + x + (7 - q))) cbit"
proof -
  have "bit (group_byte raw x_size y x cbit) q \<longleftrightarrow>
        (\<exists>p<8. x + p < x_size \<and> q = 7 - p \<and> bit (raw ! (y * x_size + x + p)) cbit)"
    by (auto simp add: group_byte_def bit_foldl_or bit_pixel_bit)
  also have "\<dots> \<longleftrightarrow> q < 8 \<and> x + (7 - q) < x_size \<and> bit (raw ! (y * x_size + x + (7 - q))) cbit"
  proof
    assume "\<exists>p<8. x + p < x_size \<and> q = 7 - p \<and> bit (raw ! (y * x_size + x + p)) cbit"
    then obtain p where p: "p < 8" "x + p < x_size" "q = 7 - p"
        "bit (raw ! (y * x_size + x + p)) cbit"
      by blast
    then have "7 - q = p"
      by simp
    then show "q < 8 \<and> x + (7 - q) < x_size \<and> bit (raw ! (y * x_size + x + (7 - q))) cbit"
      using p by simp
  next
    assume a: "q < 8 \<and> x + (7 - q) < x_size \<and> bit (raw ! (y * x_size + x + (7 - q))) cbit"
    then show "\<exists>p<8. x + p < x_size \<and> q = 7 - p \<and> bit (raw ! (y * x_size + x + p)) cbit"
      by (intro exI [of _ "7 - q"]) auto
  qed
  finally show ?thesis .
qed

definition layers :: "u8 list \<Rightarrow> u8 list \<Rightarrow> nat \<Rightarrow> nat \<Rightarrow> nat \<Rightarrow> nat \<Rightarrow> u8 list" where
  "layers raw binary color_bits x_size k cb =
     map (\<lambda>i. if i div CARD_MEMORY_SIZE < color_bits \<and>
                  (i mod CARD_MEMORY_SIZE < k \<or>
                   (i mod CARD_MEMORY_SIZE = k \<and> i div CARD_MEMORY_SIZE < cb))
               then group_byte raw x_size (i mod CARD_MEMORY_SIZE div row_bytes x_size)
                      (8 * (i mod CARD_MEMORY_SIZE mod row_bytes x_size))
                      (i div CARD_MEMORY_SIZE)
               else binary ! i)
       [0..<length binary]"

lemma length_layers [simp]: "length (layers raw binary color_bits x_size k cb) = length binary"
  by (simp add: layers_def)

lemma layers_0: "layers raw binary color_bits x_size 0 0 = binary"
  by (simp add: layers_def map_nth)

lemma layers_next:
  "layers raw binary color_bits x_size k color_bits = layers raw binary color_bits x_size (Suc k) 0"
  by (auto simp add: layers_def)

lemma cell_index:
  assumes "k < CARD_MEMORY_SIZE"
  shows "(k + CARD_MEMORY_SIZE * cb) div CARD_MEMORY_SIZE = cb"
    and "(k + CARD_MEMORY_SIZE * cb) mod CARD_MEMORY_SIZE = k"
  using assms by (simp_all add: CARD_MEMORY_SIZE_def)

lemma layers_step:
  assumes k: "k < CARD_MEMORY_SIZE" and cb: "cb < color_bits"
    and len: "k + CARD_MEMORY_SIZE * cb < length binary"
  shows "(layers raw binary color_bits x_size k cb)
           [k + CARD_MEMORY_SIZE * cb :=
              group_byte raw x_size (k div row_bytes x_size) (8 * (k mod row_bytes x_size)) cb] =
         layers raw binary color_bits x_size k (Suc cb)"
proof (rule nth_equalityI)
  show "length ((layers raw binary color_bits x_size k cb)
           [k + CARD_MEMORY_SIZE * cb :=
              group_byte raw x_size (k div row_bytes x_size) (8 * (k mod row_bytes x_size)) cb]) =
        length (layers raw binary color_bits x_size k (Suc cb))"
    by simp
next
  fix i
  assume "i < length ((layers raw binary color_bits x_size k cb)
           [k + CARD_MEMORY_SIZE * cb :=
              group_byte raw x_size (k div row_bytes x_size) (8 * (k mod row_bytes x_size)) cb])"
  then have i: "i < length binary"
    by simp
  show "(layers raw binary color_bits x_size k cb)
           [k + CARD_MEMORY_SIZE * cb :=
              group_byte raw x_size (k div row_bytes x_size) (8 * (k mod row_bytes x_size)) cb] ! i =
        layers raw binary color_bits x_size k (Suc cb) ! i"
  proof (cases "i = k + CARD_MEMORY_SIZE * cb")
    case True
    then show ?thesis
      using i cb cell_index [OF k, of cb] by (simp add: layers_def)
  next
    case False
    have "\<not> (i mod CARD_MEMORY_SIZE = k \<and> i div CARD_MEMORY_SIZE = cb)"
    proof
      assume "i mod CARD_MEMORY_SIZE = k \<and> i div CARD_MEMORY_SIZE = cb"
      then have "i = k + CARD_MEMORY_SIZE * cb"
        using div_mult_mod_eq [of i CARD_MEMORY_SIZE] by (simp add: mult.commute)
      with False show False
        by simp
    qed
    then have "i mod CARD_MEMORY_SIZE = k \<and> i div CARD_MEMORY_SIZE < Suc cb \<longleftrightarrow>
               i mod CARD_MEMORY_SIZE = k \<and> i div CARD_MEMORY_SIZE < cb"
      by (auto simp add: less_Suc_eq)
    then show ?thesis
      using i False by (simp add: layers_def)
  qed
qed

lemma cbit_loop_layers:
  assumes geo: "0 < x_size" "g < row_bytes x_size" "y < y_size"
    and raw: "x_size * y_size \<le> length raw"
    and k: "k = row_bytes x_size * y + g" "k < CARD_MEMORY_SIZE"
    and len: "CARD_MEMORY_SIZE * color_bits \<le> length binary"
    and cb: "cb \<le> color_bits"
  shows "cbit_loop raw (layers raw binary color_bits x_size k cb) k data_size color_bits
           x_size y (8 * g) cb =
         Some (layers raw binary color_bits x_size k color_bits, data_size + (color_bits - cb))"
  using cb
proof (induction "color_bits - cb" arbitrary: cb data_size)
  case 0
  then show ?case
    by (subst cbit_loop.simps) simp
next
  case (Suc d)
  then have lt: "cb < color_bits" and d: "d = color_bits - Suc cb" and le: "Suc cb \<le> color_bits"
    by auto
  let ?i = "k + CARD_MEMORY_SIZE * cb"
  let ?L = "layers raw binary color_bits x_size k cb"
  have "CARD_MEMORY_SIZE * Suc cb \<le> CARD_MEMORY_SIZE * color_bits"
    using le by (rule mult_le_mono2)
  then have "CARD_MEMORY_SIZE * cb + CARD_MEMORY_SIZE \<le> CARD_MEMORY_SIZE * color_bits"
    by simp
  then have i: "?i < length binary"
    using k(2) len by linarith
  have rows: "\<forall>p<8. 8 * g + p < x_size \<longrightarrow> y * x_size + 8 * g + p < length raw"
  proof (intro allI impI)
    fix p assume "p < 8" "8 * g + p < x_size"
    then have "y * x_size + 8 * g + p < y * x_size + x_size"
      by simp
    also have "\<dots> = x_size * Suc y"
      by (simp add: mult.commute)
    also have "\<dots> \<le> x_size * y_size"
      using geo(3) by (intro mult_le_mono2) simp
    finally show "y * x_size + 8 * g + p < length raw"
      using raw by simp
  qed
  have kd: "k div row_bytes x_size = y" "k mod row_bytes x_size = g"
    using geo(2) k(1) by simp_all
  have pl: "pixel_loop raw (?L[?i := 0]) k cb x_size y (8 * g) 0 =
            Some (?L[?i := group_byte raw x_size y (8 * g) cb])"
    using i pixel_loop_eq [of k cb "?L[?i := 0]" "8 * g" x_size y raw 0] rows
    by (simp add: group_byte_def)
  have "cbit_loop raw ?L k data_size color_bits x_size y (8 * g) cb =
        cbit_loop raw (layers raw binary color_bits x_size k (Suc cb)) k (data_size + 1)
          color_bits x_size y (8 * g) (Suc cb)"
    using lt layers_step [OF k(2) lt i, of raw x_size]
    by (subst cbit_loop.simps) (simp add: pl kd)
  then show ?case
    using Suc.hyps(1) [OF d le, of "data_size + 1"] lt by simp
qed

lemma group_bound: "g < row_bytes x_size \<longleftrightarrow> 8 * g < x_size"
  unfolding row_bytes_def by linarith

lemma x_loop_layers:
  assumes geo: "0 < x_size" "x_size \<le> 65528" "y < y_size"
    and raw: "x_size * y_size \<le> length raw"
    and fit: "row_bytes x_size * Suc y \<le> CARD_MEMORY_SIZE"
    and len: "CARD_MEMORY_SIZE * color_bits \<le> length binary"
    and g: "g \<le> row_bytes x_size"
  shows "x_loop raw (layers raw binary color_bits x_size (row_bytes x_size * y + g) 0)
           (row_bytes x_size * y + g) data_size color_bits x_size y (8 * g) =
         Some (layers raw binary color_bits x_size (row_bytes x_size * Suc y) 0,
               row_bytes x_size * Suc y,
               data_size + color_bits * (row_bytes x_size - g))"
  using g
proof (induction "row_bytes x_size - g" arbitrary: g data_size)
  case 0
  then have "g = row_bytes x_size"
    by simp
  moreover from this have "\<not> 8 * g < x_size"
    using group_bound [of g x_size] by simp
  ultimately show ?case
    by (subst x_loop.simps) (simp add: add.commute)
next
  case (Suc d)
  then have lt: "g < row_bytes x_size" and d: "d = row_bytes x_size - Suc g"
    and le: "Suc g \<le> row_bytes x_size"
    by auto
  define k where "k = row_bytes x_size * y + g"
  have x: "8 * g < x_size"
    using lt by (simp add: group_bound)
  have k: "k < CARD_MEMORY_SIZE"
    using lt fit by (simp add: k_def)
  have wrap: "(8 * g + 8) mod 65536 = 8 * Suc g"
    using x geo(2) by simp
  have c: "cbit_loop raw (layers raw binary color_bits x_size k 0) k data_size color_bits
             x_size y (8 * g) 0 =
           Some (layers raw binary color_bits x_size (Suc k) 0, data_size + color_bits)"
    using cbit_loop_layers [OF geo(1) lt geo(3) raw k_def k len, of 0 data_size]
    by (simp add: layers_next)
  have "x_loop raw (layers raw binary color_bits x_size k 0) k data_size color_bits x_size y (8 * g) =
        x_loop raw (layers raw binary color_bits x_size (Suc k) 0) (Suc k)
          (data_size + color_bits) color_bits x_size y (8 * Suc g)"
    using x by (subst x_loop.simps) (simp add: c wrap)
  also have "Suc k = row_bytes x_size * y + Suc g"
    by (simp add: k_def)
  finally have step: "x_loop raw (layers raw binary color_bits x_size k 0) k data_size
        color_bits x_size y (8 * g) =
      x_loop raw (layers raw binary color_bits x_size (row_bytes x_size * y + Suc g) 0)
        (row_bytes x_size * y + Suc g) (data_size + color_bits) color_bits x_size y (8 * Suc g)" .
  have "row_bytes x_size - g = Suc (row_bytes x_size - Suc g)"
    using lt by simp
  then have cnt: "color_bits * (row_bytes x_size - g) =
      color_bits + color_bits * (row_bytes x_size - Suc g)"
    by simp
  show ?case
    using Suc.hyps(1) [OF d le, of "data_size + color_bits"]
    by (simp only: step cnt k_def [symmetric] add.assoc)
qed

lemma y_loop_layers:
  assumes geo: "0 < x_size" "x_size \<le> 65528"
    and raw: "x_size * y_size \<le> length raw"
    and fit: "row_bytes x_size * y_size \<le> CARD_MEMORY_SIZE"
    and len: "CARD_MEMORY_SIZE * color_bits \<le> length binary"
    and y: "y \<le> y_size"
  shows "y_loop raw (layers raw binary color_bits x_size (row_bytes x_size * y) 0)
           (row_bytes x_size * y) data_size color_bits x_size y_size y =
         Some (layers raw binary color_bits x_size (row_bytes x_size * y_size) 0,
               data_size + color_bits * row_bytes x_size * (y_size - y))"
  using y
proof (induction "y_size - y" arbitrary: y data_size)
  case 0
  then show ?case
    by (subst y_loop.simps) simp
next
  case (Suc d)
  then have lt: "y < y_size" and d: "d = y_size - Suc y" and le: "Suc y \<le> y_size"
    by auto
  have "row_bytes x_size * Suc y \<le> row_bytes x_size * y_size"
    using le by (rule mult_le_mono2)
  then have fit': "row_bytes x_size * Suc y \<le> CARD_MEMORY_SIZE"
    using fit by simp
  have x: "x_loop raw (layers raw binary color_bits x_size (row_bytes x_size * y) 0)
           (row_bytes x_size * y) data_size color_bits x_size y 0 =
         Some (layers raw binary color_bits x_size (row_bytes x_size * Suc y) 0,
               row_bytes x_size * Suc y,
               data_size + color_bits * row_bytes x_size)"
    using x_loop_layers [OF geo lt raw fit' len, of 0 data_size] by simp
  have "y_size - y = Suc (y_size - Suc y)"
    using lt by simp
  then have "color_bits * row_bytes x_size * (y_size - y) =
             color_bits * row_bytes x_size + color_bits * row_bytes x_size * (y_size - Suc y)"
    by simp
  then show ?case
    using Suc.hyps(1) [OF d le, of "data_size + color_bits * row_bytes x_size"] lt
    by (subst y_loop.simps) (simp add: x)
qed

lemma convert_to_layers_eq:
  assumes "0 < x_size" "x_size \<le> 65528"
    and "x_size * y_size \<le> length raw"
    and "row_bytes x_size * y_size \<le> CARD_MEMORY_SIZE"
    and "CARD_MEMORY_SIZE * color_bits \<le> length binary"
  shows "convert_to_layers raw binary color_bits x_size y_size =
         Some (layers raw binary color_bits x_size (row_bytes x_size * y_size) 0,
               color_bits * row_bytes x_size * y_size)"
  using y_loop_layers [OF assms, of 0 0]
  by (simp add: convert_to_layers_def layers_0)

definition plane_bit :: "u8 list \<Rightarrow> nat \<Rightarrow> nat \<Rightarrow> nat \<Rightarrow> nat \<Rightarrow> bool" where
  "plane_bit binary x_size x y b =
     bit (binary ! (b * CARD_MEMORY_SIZE + x div 8 + row_bytes x_size * y)) (7 - x mod 8)"

definition reassemble :: "u8 list \<Rightarrow> nat \<Rightarrow> nat \<Rightarrow> nat \<Rightarrow> u8" where
  "reassemble binary color_bits x_size i =
     horner_sum of_bool 2
       (map (plane_bit binary x_size (i mod x_size) (i div x_size)) [0..<color_bits])"

lemma take_bit_small: "unat w < 2 ^ n \<Longrightarrow> take_bit n w = w"
  for w :: "'a::len word"
  by (simp add: word_unat_eq_iff unsigned_take_bit_eq take_bit_nat_eq_self)

lemma layers_nth:
  assumes "c < k" "k \<le> CARD_MEMORY_SIZE" "b < color_bits"
    and "CARD_MEMORY_SIZE * color_bits \<le> length binary"
  shows "layers raw binary color_bits x_size k 0 ! (b * CARD_MEMORY_SIZE + c) =
         group_byte raw x_size (c div row_bytes x_size) (8 * (c mod row_bytes x_size)) b"
proof -
  have c: "c < CARD_MEMORY_SIZE"
    using assms by simp
  have "CARD_MEMORY_SIZE * Suc b \<le> CARD_MEMORY_SIZE * color_bits"
    using assms(3) by (intro mult_le_mono2) simp
  then have i: "b * CARD_MEMORY_SIZE + c < length binary"
    using c assms(4) by (simp add: mult.commute)
  show ?thesis
    using i assms(1,3) cell_index [OF c, of b]
    by (simp add: layers_def add.commute mult.commute)
qed

lemma layers_frame:
  assumes "i < length binary"
    and "color_bits \<le> i div CARD_MEMORY_SIZE \<or> k \<le> i mod CARD_MEMORY_SIZE"
  shows "layers raw binary color_bits x_size k 0 ! i = binary ! i"
  using assms by (auto simp add: layers_def)

lemma cell_of_pixel:
  assumes "0 < x_size" "x < 8 * row_bytes x_size" "y < y_size"
  shows "x div 8 + row_bytes x_size * y < row_bytes x_size * y_size"
    and "(x div 8 + row_bytes x_size * y) div row_bytes x_size = y"
    and "(x div 8 + row_bytes x_size * y) mod row_bytes x_size = x div 8"
proof -
  have g: "x div 8 < row_bytes x_size"
    using assms(2) by simp
  have "row_bytes x_size * Suc y \<le> row_bytes x_size * y_size"
    using assms(3) by (intro mult_le_mono2) simp
  then show "x div 8 + row_bytes x_size * y < row_bytes x_size * y_size"
    using g by simp
  show "(x div 8 + row_bytes x_size * y) div row_bytes x_size = y"
    using g by simp
  show "(x div 8 + row_bytes x_size * y) mod row_bytes x_size = x div 8"
    using g by simp
qed

lemma layers_bit:
  assumes geo: "0 < x_size" "x < 8 * row_bytes x_size" "y < y_size"
    and fit: "row_bytes x_size * y_size \<le> CARD_MEMORY_SIZE"
    and b: "b < color_bits"
    and len: "CARD_MEMORY_SIZE * color_bits \<le> length binary"
  shows "plane_bit (layers raw binary color_bits x_size (row_bytes x_size * y_size) 0) x_size x y b
         \<longleftrightarrow> x < x_size \<and> bit (raw ! (y * x_size + x)) b"
proof -
  note c = cell_of_pixel [OF geo]
  have m: "7 - (7 - x mod 8) = x mod 8"
    by simp
  have x: "8 * (x div 8) + x mod 8 = x"
    by simp
  have "plane_bit (layers raw binary color_bits x_size (row_bytes x_size * y_size) 0) x_size x y b
        \<longleftrightarrow> bit (group_byte raw x_size y (8 * (x div 8)) b) (7 - x mod 8)"
    unfolding plane_bit_def add.assoc
    by (simp only: layers_nth [OF c(1) fit b len] c(2,3))
  also have "\<dots> \<longleftrightarrow> x < x_size \<and> bit (raw ! (y * x_size + x)) b"
  proof -
    have "7 - x mod 8 < 8"
      by arith
    then show ?thesis
      by (simp only: bit_group_byte m add.assoc x) simp
  qed
  finally show ?thesis .
qed

text \<open>
  Claim C1. For an image within the device limits (1 to 320 pixels wide, 1 to 200 rows,
  1 to 4 planes), a raster of exactly \<open>x_size * y_size\<close> bytes whose values are below
  \<open>2 ^ color_bits\<close> and the 4 * 8192 byte buffer of \<open>main\<close>, \<open>convert_to_layers\<close>
  returns, and in its result bit \<open>7 - x mod 8\<close> of the byte at
  \<open>b * 8192 + x div 8 + ceil(x_size / 8) * y\<close> is bit \<open>b\<close> of the raster value at
  \<open>y * x_size + x\<close>; the bits of the positions beyond the row width are 0; and
  putting the plane bits of every pixel together again gives the raster back.
\<close>

theorem C1_bit_plane_round_trip:
  assumes "1 \<le> x_size" and "x_size \<le> MAX_COL_BYTES * 8"
    and "1 \<le> y_size" and "y_size \<le> MAX_ROWS"
    and "1 \<le> color_bits" and "color_bits \<le> 4"
    and "length raw = x_size * y_size"
    and "\<forall>v \<in> set raw. unat v < 2 ^ color_bits"
    and "length binary = MAX_CARDS * CARD_MEMORY_SIZE"
  shows "\<exists>planes.
           convert_to_layers raw binary color_bits x_size y_size =
             Some (planes, color_bits * ((x_size + 7) div 8) * y_size) \<and>
           (\<forall>x<x_size. \<forall>y<y_size. \<forall>b<color_bits.
              bit (planes ! (b * 8192 + x div 8 + (x_size + 7) div 8 * y)) (7 - x mod 8) \<longleftrightarrow>
              bit (raw ! (y * x_size + x)) b) \<and>
           (\<forall>x y b. x_size \<le> x \<and> x < 8 * ((x_size + 7) div 8) \<and> y < y_size \<and> b < color_bits \<longrightarrow>
              \<not> bit (planes ! (b * 8192 + x div 8 + (x_size + 7) div 8 * y)) (7 - x mod 8)) \<and>
           map (reassemble planes color_bits x_size) [0..<x_size * y_size] = raw"
proof -
  define planes where
    "planes = layers raw binary color_bits x_size (row_bytes x_size * y_size) 0"
  have x0: "0 < x_size" and x1: "x_size \<le> 65528"
    using assms(1,2) by (simp_all add: MAX_COL_BYTES_def)
  have rb: "row_bytes x_size \<le> 40"
    using assms(2) by (simp add: row_bytes_def MAX_COL_BYTES_def)
  have "row_bytes x_size * y_size \<le> 40 * 200"
    using rb assms(4) by (intro mult_le_mono) (simp_all add: MAX_ROWS_def)
  then have fit: "row_bytes x_size * y_size \<le> CARD_MEMORY_SIZE"
    by (simp add: CARD_MEMORY_SIZE_def)
  have "CARD_MEMORY_SIZE * color_bits \<le> CARD_MEMORY_SIZE * 4"
    using assms(6) by (rule mult_le_mono2)
  then have len: "CARD_MEMORY_SIZE * color_bits \<le> length binary"
    by (simp add: assms(9) MAX_CARDS_def)
  have raw: "x_size * y_size \<le> length raw"
    by (simp add: assms(7))
  have conv: "convert_to_layers raw binary color_bits x_size y_size =
             Some (planes, color_bits * ((x_size + 7) div 8) * y_size)"
    using convert_to_layers_eq [OF x0 x1 raw fit len]
    by (simp add: planes_def row_bytes_def)
  have pb: "plane_bit planes x_size x y b \<longleftrightarrow> x < x_size \<and> bit (raw ! (y * x_size + x)) b"
    if "x < 8 * row_bytes x_size" "y < y_size" "b < color_bits" for x y b
    unfolding planes_def using layers_bit [OF x0 that(1,2) fit that(3) len] .
  have wide: "x < 8 * row_bytes x_size" if "x < x_size" for x
    using that unfolding row_bytes_def by linarith
  have bits: "\<forall>x<x_size. \<forall>y<y_size. \<forall>b<color_bits.
              bit (planes ! (b * 8192 + x div 8 + (x_size + 7) div 8 * y)) (7 - x mod 8) \<longleftrightarrow>
              bit (raw ! (y * x_size + x)) b"
    using pb wide by (simp add: plane_bit_def CARD_MEMORY_SIZE_def row_bytes_def)
  have pad: "\<forall>x y b. x_size \<le> x \<and> x < 8 * ((x_size + 7) div 8) \<and> y < y_size \<and> b < color_bits \<longrightarrow>
              \<not> bit (planes ! (b * 8192 + x div 8 + (x_size + 7) div 8 * y)) (7 - x mod 8)"
    using pb by (simp add: plane_bit_def CARD_MEMORY_SIZE_def row_bytes_def)
  have re: "map (reassemble planes color_bits x_size) [0..<x_size * y_size] = raw"
  proof (rule nth_equalityI)
    show "length (map (reassemble planes color_bits x_size) [0..<x_size * y_size]) = length raw"
      by (simp add: assms(7))
  next
    fix i
    assume "i < length (map (reassemble planes color_bits x_size) [0..<x_size * y_size])"
    then have i: "i < x_size * y_size"
      by simp
    have x: "i mod x_size < x_size"
      using x0 by simp
    have y: "i div x_size < y_size"
      using i x0 by (simp add: less_mult_imp_div_less mult.commute)
    have idx: "i div x_size * x_size + i mod x_size = i"
      by simp
    have m: "map (plane_bit planes x_size (i mod x_size) (i div x_size)) [0..<color_bits] =
          map (bit (raw ! i)) [0..<color_bits]"
      using pb [OF wide [OF x] y] x by (simp add: idx)
    have "reassemble planes color_bits x_size i = take_bit color_bits (raw ! i)"
      by (simp only: reassemble_def m horner_sum_bit_eq_take_bit)
    also have "\<dots> = raw ! i"
      using assms(8) i by (intro take_bit_small) (simp add: assms(7))
    finally show "map (reassemble planes color_bits x_size) [0..<x_size * y_size] ! i = raw ! i"
      using i by simp
  qed
  show ?thesis
    using conv bits pad re by blast
qed

lemma convert_sample:
  "convert_to_layers [0, 0, 0, 0, 1, 1, 1, 1] (replicate 32768 0) 1 8 1 =
     Some ((replicate 32768 0)[0 := 0x0F], 1)"
  by (simp add: convert_to_layers_def y_loop.simps x_loop.simps cbit_loop.simps
        pixel_loop.simps rd_def CARD_MEMORY_SIZE_def)

theorem C1_bit_plane_round_trip_witness:
  "(1::nat) \<le> 8 \<and> (8::nat) \<le> MAX_COL_BYTES * 8 \<and> (1::nat) \<le> 1 \<and> (1::nat) \<le> MAX_ROWS \<and>
   (1::nat) \<le> 1 \<and> (1::nat) \<le> 4 \<and>
   length [0, 0, 0, 0, 1, 1, 1, 1 :: u8] = 8 * 1 \<and>
   list_all (\<lambda>v. unat v < 2 ^ 1) [0, 0, 0, 0, 1, 1, 1, 1 :: u8] \<and>
   length (replicate 32768 (0 :: u8)) = MAX_CARDS * CARD_MEMORY_SIZE \<and>
   convert_to_layers [0, 0, 0, 0, 1, 1, 1, 1] (replicate 32768 0) 1 8 1 =
     Some ((replicate 32768 0)[0 := 0x0F], 1) \<and>
   map (reassemble ((replicate 32768 0)[0 := 0x0F]) 1 8) [0..<8 * 1] =
     [0, 0, 0, 0, 1, 1, 1, 1]"
proof -
  have h: "(1::nat) \<le> 8" "(8::nat) \<le> MAX_COL_BYTES * 8" "(1::nat) \<le> 1" "(1::nat) \<le> MAX_ROWS"
      "(1::nat) \<le> 1" "(1::nat) \<le> 4"
      "length [0, 0, 0, 0, 1, 1, 1, 1 :: u8] = 8 * 1"
      "\<forall>v \<in> set [0, 0, 0, 0, 1, 1, 1, 1 :: u8]. unat v < 2 ^ 1"
      "length (replicate 32768 (0 :: u8)) = MAX_CARDS * CARD_MEMORY_SIZE"
    by (simp_all add: MAX_COL_BYTES_def MAX_ROWS_def MAX_CARDS_def CARD_MEMORY_SIZE_def)
  from C1_bit_plane_round_trip [OF h] obtain planes where
    all: "convert_to_layers [0, 0, 0, 0, 1, 1, 1, 1] (replicate 32768 0) 1 8 1 =
            Some (planes, 1 * ((8 + 7) div 8) * 1) \<and>
          (\<forall>x<8. \<forall>y<1. \<forall>b<1.
              bit (planes ! (b * 8192 + x div 8 + (8 + 7) div 8 * y)) (7 - x mod 8) \<longleftrightarrow>
              bit ([0, 0, 0, 0, 1, 1, 1, 1 :: u8] ! (y * 8 + x)) b) \<and>
          (\<forall>x y b. 8 \<le> x \<and> x < 8 * ((8 + 7) div 8) \<and> y < 1 \<and> b < 1 \<longrightarrow>
              \<not> bit (planes ! (b * 8192 + x div 8 + (8 + 7) div 8 * y)) (7 - x mod 8)) \<and>
          map (reassemble planes 1 8) [0..<8 * 1] = [0, 0, 0, 0, 1, 1, 1, 1]" ..
  note c = all [THEN conjunct1]
  note r = all [THEN conjunct2, THEN conjunct2, THEN conjunct2]
  have p: "planes = (replicate 32768 0)[0 := 0x0F]"
    using c by (simp only: convert_sample) simp
  have l: "list_all (\<lambda>v. unat v < 2 ^ 1) [0, 0, 0, 0, 1, 1, 1, 1 :: u8]"
    by simp
  show ?thesis
    using h(1-7) l h(9) convert_sample r [unfolded p] by (intro conjI)
qed

section \<open>Flat mode\<close>

lemma group_byte_full:
  assumes "8 * g + 7 < x_size" and "\<forall>p<8. bit (raw ! (y * x_size + 8 * g + p)) b"
  shows "group_byte raw x_size y (8 * g) b = 0xFF"
proof (rule bit_word_eqI)
  fix q assume "q < LENGTH(8)"
  then have q: "q < 8"
    by simp
  have ff: "(0xFF :: u8) = - 1"
    by simp
  have "7 - q < 8"
    by arith
  then have "bit (raw ! (y * x_size + 8 * g + (7 - q))) b"
    using assms(2) by blast
  then have "bit (group_byte raw x_size y (8 * g) b) q"
    using q assms(1) by (simp add: bit_group_byte)
  then show "bit (group_byte raw x_size y (8 * g) b) q \<longleftrightarrow> bit (0xFF :: u8) q"
    using q by (simp only: ff bit_minus_1_iff) simp
qed

lemma flat_sample_planes:
  defines "planes \<equiv> layers (replicate 320 3) (replicate 32768 7) 2 320 (row_bytes 320 * 1) 0"
  shows "convert_to_layers (replicate 320 3) (replicate 32768 7) 2 320 1 = Some (planes, 80)"
    and "take 80 planes = replicate 40 0xFF @ replicate 40 7"
    and "length planes = 32768"
proof -
  have rb: "row_bytes 320 = 40"
    by (simp add: row_bytes_def)
  show "convert_to_layers (replicate 320 3) (replicate 32768 7) 2 320 1 = Some (planes, 80)"
    using convert_to_layers_eq [of 320 1 "replicate 320 3" 2 "replicate 32768 7"]
    by (simp add: planes_def rb CARD_MEMORY_SIZE_def)
  show len: "length planes = 32768"
    by (simp add: planes_def)
  show "take 80 planes = replicate 40 0xFF @ replicate 40 7"
  proof (rule nth_equalityI)
    show "length (take 80 planes) = length (replicate 40 (0xFF :: u8) @ replicate 40 7)"
      by (simp add: len)
  next
    fix i assume "i < length (take 80 planes)"
    then have i: "i < 80"
      by simp
    show "take 80 planes ! i = (replicate 40 (0xFF :: u8) @ replicate 40 7) ! i"
    proof (cases "i < 40")
      case True
      have "planes ! (0 * CARD_MEMORY_SIZE + i) =
            group_byte (replicate 320 3) 320 (i div row_bytes 320) (8 * (i mod row_bytes 320)) 0"
        unfolding planes_def using True
        by (intro layers_nth) (simp_all add: rb CARD_MEMORY_SIZE_def)
      also have "\<dots> = group_byte (replicate 320 3) 320 0 (8 * i) 0"
        using True by (simp add: rb)
      also have "\<dots> = 0xFF"
        using True by (intro group_byte_full) simp_all
      finally show ?thesis
        using True i by (simp add: nth_append)
    next
      case False
      then have "planes ! i = replicate 32768 7 ! i"
        unfolding planes_def using i
        by (intro layers_frame) (simp_all add: rb CARD_MEMORY_SIZE_def)
      then show ?thesis
        using False i by (simp add: nth_append)
    qed
  qed
qed

lemma flat_sample_calls:
  "hex_calls \<lparr>base_address = 0x2000, output_filename = ''a.hex''\<rparr> 80 2 320 1 =
     [(0x2000, 0, 80), (0x4000, 8192, 80)]"
  by (simp add: hex_calls_def plane_calls_def MAX_COL_BYTES_def CARD_MEMORY_SIZE_def
        upt_conv_Cons)

lemma ihex_write_fits:
  assumes "0 < n" "n \<le> length data" "2 * n + 12 * ((n + 31) div 32) \<le> room f"
    and "n \<le> INT_MAX"
  shows "ihex_write f a data n =
           Some (word_of_nat ((n + 31) div 32), put f (ihex_text a (take n data)))"
proof -
  have "length (ihex_text a (take n data)) = 2 * n + 12 * ((n + 31) div 32)"
    using assms(2) by (simp add: length_ihex_text min_def)
  moreover have "length (records 32 a (take n data)) = (n + 31) div 32"
    using assms(2) by (simp add: length_records min_def)
  ultimately show ?thesis
    using ihex_write_result [OF assms(1,2,4), of a f] assms(3) by simp
qed

text \<open>
  Claim C2 does not hold of the code. In flat mode \<open>output_hex\<close> hands the writer
  \<open>data_size\<close>, the byte count of all planes together as \<open>convert_to_layers\<close> returned
  it, where \<open>output_asm\<close> uses \<open>data_size / color_bits\<close>. For an image of 320 by 1
  pixels in 2 planes a plane has 40 bytes, but each of the two calls is for 80 bytes:
  the records of plane 0 hold its 40 bytes and then 40 bytes of the buffer that are no
  image data (here the 7 the buffer was filled with), in 3 records where the plane
  needs 2, and the line count is 6 where it should be 4.
\<close>

theorem C2_flat_mode_overrun:
  "\<exists>planes f'.
     convert_to_layers (replicate 320 3) (replicate 32768 7) 2 320 1 = Some (planes, 80) \<and>
     (320 + 7) div 8 * 1 = (40::nat) \<and>
     hex_calls \<lparr>base_address = 0x2000, output_filename = ''a.hex''\<rparr> 80 2 320 1 =
       [(0x2000, 0, 80), (0x4000, 8192, 80)] \<and>
     take 80 planes = replicate 40 0xFF @ replicate 40 7 \<and>
     output_hex_planes ihex_write \<lparr>written = [], room = 1000\<rparr> planes
       \<lparr>base_address = 0x2000, output_filename = ''a.hex''\<rparr> 80 2 320 1 0 0 =
       Some (True, 6, f') \<and>
     written f' = ihex_text 0x2000 (take 80 planes) @ ihex_text 0x4000 (take 80 (drop 8192 planes))"
proof -
  define planes where
    "planes = layers (replicate 320 3) (replicate 32768 7) 2 320 (row_bytes 320 * 1) 0"
  define f0 where "f0 = \<lparr>written = [], room = 1000\<rparr>"
  define T1 where "T1 = ihex_text 0x2000 (take 80 planes)"
  define T2 where "T2 = ihex_text 0x4000 (take 80 (drop 8192 planes))"
  note S = flat_sample_planes [folded planes_def]
  have l1: "length T1 = 196"
    by (simp add: T1_def length_ihex_text S(3))
  have w1: "ihex_write f0 0x2000 planes 80 = Some (3, put f0 T1)"
    using ihex_write_fits [of 80 planes f0 "0x2000"]
    by (simp add: S(3) f0_def T1_def INT_MAX_def)
  have w2: "ihex_write (put f0 T1) 0x4000 (drop 8192 planes) 80 = Some (3, put (put f0 T1) T2)"
    using ihex_write_fits [of 80 "drop 8192 planes" "put f0 T1" "0x4000"]
    by (simp add: S(3) room_put l1 f0_def T2_def INT_MAX_def)
  have run: "run_writes ihex_write planes [(0x2000, 0, 80), (0x4000, 8192, 80)] 0 f0 =
      Some (True, 6, put (put f0 T1) T2)"
    by (simp add: w1 w2)
  have "output_hex_planes ihex_write f0 planes
       \<lparr>base_address = 0x2000, output_filename = ''a.hex''\<rparr> 80 2 320 1 0 0 =
     run_writes ihex_write planes
       (hex_calls \<lparr>base_address = 0x2000, output_filename = ''a.hex''\<rparr> 80 2 320 1) 0 f0"
    by (simp only: output_hex_planes_run hex_calls_def)
  then have out: "output_hex_planes ihex_write \<lparr>written = [], room = 1000\<rparr> planes
       \<lparr>base_address = 0x2000, output_filename = ''a.hex''\<rparr> 80 2 320 1 0 0 =
     Some (True, 6, put (put f0 T1) T2)"
    by (simp only: flat_sample_calls run f0_def [symmetric])
  have wr: "written (put (put f0 T1) T2) =
      ihex_text 0x2000 (take 80 planes) @ ihex_text 0x4000 (take 80 (drop 8192 planes))"
    by (simp add: written_put f0_def T1_def T2_def)
  have rb: "(320 + 7) div 8 * 1 = (40::nat)"
    by simp
  show ?thesis
    using S(1) rb flat_sample_calls S(2) out wr
    by (intro exI [of _ planes] exI [of _ "put (put f0 T1) T2"] conjI)
qed

section \<open>Reading text: \<open>fgets\<close>, \<open>sscanf\<close>, \<open>strtoul\<close>\<close>

text \<open>
  An input stream is the list of the lines that the successive calls of \<open>fgets\<close>
  return until the end of the file: \<open>fgets_lines\<close> cuts the contents of a file
  into them. \<open>fgets\<close> reads at most \<open>bufsiz - 1\<close> characters and stops after a
  newline. (\<open>BUFSIZ\<close> is at least 256 in C; a buffer of fewer than 2 bytes holds no
  line.) The string functions see a character array up to its first NUL.
  \<open>isspace\<close> and \<open>isdigit\<close> are those of the C locale.
\<close>

definition NUL :: char where
  "NUL = CHR 0x00"

definition newline :: char where
  "newline = CHR 0x0A"

definition BUFSIZ :: nat where
  "BUFSIZ = 8192"

definition cstr :: "string \<Rightarrow> string" where
  "cstr s = takeWhile (\<lambda>c. c \<noteq> NUL) s"

definition isspace :: "char \<Rightarrow> bool" where
  "isspace c \<longleftrightarrow> c \<in> set [CHR 0x20, CHR 0x09, CHR 0x0A, CHR 0x0B, CHR 0x0C, CHR 0x0D]"

definition isdigit :: "char \<Rightarrow> bool" where
  "isdigit c \<longleftrightarrow> c \<in> set ''0123456789''"

definition digit_value :: "char \<Rightarrow> nat" where
  "digit_value c = length (takeWhile (\<lambda>d. d \<noteq> c) ''0123456789'')"

definition decimal :: "string \<Rightarrow> nat" where
  "decimal ds = foldl (\<lambda>n c. 10 * n + digit_value c) 0 ds"

fun fgets_line :: "nat \<Rightarrow> string \<Rightarrow> string \<times> string" where
  "fgets_line n [] = ([], [])"
| "fgets_line n (c # cs) =
     (if n = 0 then ([], c # cs)
      else if c = newline then ([c], cs)
      else (case fgets_line (n - 1) cs of (l, rest) \<Rightarrow> (c # l, rest)))"

lemma fgets_line_shorter:
  "0 < n \<Longrightarrow> s \<noteq> [] \<Longrightarrow> length (snd (fgets_line n s)) < length s"
proof (induction s arbitrary: n)
  case Nil
  then show ?case by simp
next
  case (Cons c cs)
  show ?case
  proof (cases "c = newline \<or> cs = [] \<or> n - 1 = 0")
    case True
    then show ?thesis
      using Cons.prems by (cases cs) (auto split: prod.splits)
  next
    case False
    then show ?thesis
      using Cons.IH [of "n - 1"] Cons.prems by (auto split: prod.splits)
  qed
qed

function fgets_lines :: "nat \<Rightarrow> string \<Rightarrow> string list" where
  "fgets_lines bufsiz s =
     (if s = [] \<or> bufsiz < 2 then []
      else fst (fgets_line (bufsiz - 1) s) # fgets_lines bufsiz (snd (fgets_line (bufsiz - 1) s)))"
  by pat_completeness auto
termination
  by (relation "measure (\<lambda>(bufsiz, s). length s)") (auto intro: fgets_line_shorter)

declare fgets_lines.simps [simp del]

text \<open>
  \<open>sscanf\<close> for the formats of this program: white space in the format skips any
  white space of the input, \<open>%hhu\<close> and \<open>%hu\<close> skip white space and convert an
  optionally signed run of decimal digits as \<open>strtoul\<close> does, storing the value
  reduced to 8 or 16 bits, \<open>%*s\<close> skips a word and stores nothing, and any other
  character must be matched. The result is the returned count, \<open>EOF\<close> when the input
  ends before the first conversion, with the values stored in order.
  \<open>unsigned long\<close> has 64 bits.
\<close>

datatype directive = Lit char | Space | Unsigned nat | Skip_string

function parse_format :: "string \<Rightarrow> directive list" where
  "parse_format [] = []"
| "parse_format (c # cs) =
     (if isspace c then Space # parse_format (dropWhile isspace cs)
      else if c = CHR ''%'' \<and> take 3 cs = ''hhu'' then Unsigned 8 # parse_format (drop 3 cs)
      else if c = CHR ''%'' \<and> take 2 cs = ''hu'' then Unsigned 16 # parse_format (drop 2 cs)
      else if c = CHR ''%'' \<and> take 2 cs = ''*s'' then Skip_string # parse_format (drop 2 cs)
      else Lit c # parse_format cs)"
  by pat_completeness auto
termination
  by (relation "measure length") (auto simp add: length_dropWhile_le less_Suc_eq_le)

definition ULONG_MAX :: nat where
  "ULONG_MAX = 2 ^ 64 - 1"

definition ERANGE :: int where
  "ERANGE = 34"

definition EOF :: int where
  "EOF = - 1"

definition strtoul_value :: "bool \<Rightarrow> string \<Rightarrow> nat" where
  "strtoul_value neg ds =
     (if decimal ds > ULONG_MAX then ULONG_MAX
      else if neg then (2 ^ 64 - decimal ds) mod 2 ^ 64
      else decimal ds)"

definition scan_unsigned :: "string \<Rightarrow> (nat \<times> string) option" where
  "scan_unsigned s =
     (let neg = (take 1 s = ''-'');
          s1 = (if take 1 s = ''-'' \<or> take 1 s = ''+'' then drop 1 s else s);
          ds = takeWhile isdigit s1
      in if ds = [] then None else Some (strtoul_value neg ds, dropWhile isdigit s1))"

fun sscanf_run :: "directive list \<Rightarrow> string \<Rightarrow> nat list \<Rightarrow> int \<times> nat list" where
  "sscanf_run [] s vs = (int (length vs), vs)"
| "sscanf_run (Space # ds) s vs = sscanf_run ds (dropWhile isspace s) vs"
| "sscanf_run (Lit c # ds) s vs =
     (case s of
        [] \<Rightarrow> (if vs = [] then EOF else int (length vs), vs)
      | x # xs \<Rightarrow> if x = c then sscanf_run ds xs vs else (int (length vs), vs))"
| "sscanf_run (Unsigned bits # ds) s vs =
     (if dropWhile isspace s = [] then (if vs = [] then EOF else int (length vs), vs)
      else (case scan_unsigned (dropWhile isspace s) of
              None \<Rightarrow> (int (length vs), vs)
            | Some (v, rest) \<Rightarrow> sscanf_run ds rest (vs @ [v mod 2 ^ bits])))"
| "sscanf_run (Skip_string # ds) s vs =
     (if dropWhile isspace s = [] then (if vs = [] then EOF else int (length vs), vs)
      else sscanf_run ds (dropWhile (\<lambda>c. \<not> isspace c) (dropWhile isspace s)) vs)"

definition sscanf :: "string \<Rightarrow> string \<Rightarrow> int \<times> nat list" where
  "sscanf s format = sscanf_run (parse_format format) (cstr s) []"


lemmas text_eval = cstr_def NUL_def newline_def isspace_def isdigit_def scan_unsigned_def
  strtoul_value_def decimal_def digit_value_def ULONG_MAX_def EOF_def

section \<open>kimg.c: reading the palette and the image\<close>

text \<open>
  \<open>fgets\<close> and \<open>fread\<close> overwrite the start of the buffer and leave the rest of it
  as it was; a line that \<open>fgets\<close> delivers, with its terminating NUL, is not longer
  than the buffer. \<open>strncmp\<close> and \<open>strstr\<close> see their arguments up to the first NUL;
  \<open>strncmp_equal\<close> takes the end of an array without one for the terminator.
\<close>

definition fgets_store :: "string \<Rightarrow> string \<Rightarrow> string" where
  "fgets_store l buffer = l @ [NUL] @ drop (length l + 1) buffer"

definition fread_store :: "string \<Rightarrow> string \<Rightarrow> string" where
  "fread_store bytes buffer = bytes @ drop (length bytes) buffer"

definition strncmp_equal :: "string \<Rightarrow> string \<Rightarrow> nat \<Rightarrow> bool" where
  "strncmp_equal s1 s2 n \<longleftrightarrow> take n (cstr s1 @ [NUL]) = take n (cstr s2 @ [NUL])"

fun strstr :: "string \<Rightarrow> string \<Rightarrow> bool" where
  "strstr [] needle \<longleftrightarrow> needle = []"
| "strstr (c # cs) needle \<longleftrightarrow> take (length needle) (c # cs) = needle \<or> strstr cs needle"

record color_t =
  r :: u8
  g :: u8
  b :: u8

definition palette_sig :: string where
  "palette_sig = ''GIMP Palette\<newline>''"

definition palette_s :: string where
  "palette_s = ''%hhu %hhu %hhu %*s''"

text \<open>
  \<open>open_palette\<close>: \<open>fopen_r\<close> gives the contents of a file that can be opened. The
  signature is read by one \<open>fread\<close> of 13 bytes and compared over
  \<open>sizeof palette_sig = 14\<close> bytes, so the comparison also reads the byte of the
  buffer after the signature. The result is the rest of the stream, or \<open>None\<close> for
  \<open>NULL\<close>.
\<close>

definition open_palette :: "(string \<Rightarrow> string option) \<Rightarrow> string \<Rightarrow> string \<Rightarrow> string option" where
  "open_palette fopen_r file_name buffer =
     (case fopen_r file_name of
        None \<Rightarrow> None
      | Some contents \<Rightarrow>
          if \<not> strncmp_equal (fread_store (take (length palette_sig) contents) buffer)
                 (palette_sig @ [NUL]) (length palette_sig + 1)
          then None
          else Some (drop (length palette_sig) contents))"

text \<open>
  \<open>sscanf\<close> stores what it converts in the fields of \<open>palette[ncolors]\<close>, also on a
  line it matches only in part. At \<open>ncolors = 16\<close> that entry lies behind the
  array; the store is then left out here.
\<close>

definition store_color :: "color_t list \<Rightarrow> nat \<Rightarrow> nat list \<Rightarrow> color_t list" where
  "store_color palette ncolors vs =
     (if ncolors < length palette then
        palette[ncolors :=
          (case vs of
             [] \<Rightarrow> palette ! ncolors
           | [v0] \<Rightarrow> (palette ! ncolors)\<lparr>r := word_of_nat v0\<rparr>
           | [v0, v1] \<Rightarrow> (palette ! ncolors)\<lparr>r := word_of_nat v0, g := word_of_nat v1\<rparr>
           | v0 # v1 # v2 # _ \<Rightarrow> \<lparr>r = word_of_nat v0, g = word_of_nat v1, b = word_of_nat v2\<rparr>)]
      else palette)"

fun read_palette_loop :: "string list \<Rightarrow> color_t list \<Rightarrow> nat \<Rightarrow> nat \<times> color_t list" where
  "read_palette_loop [] palette ncolors = (ncolors, palette)"
| "read_palette_loop (line # palette_f) palette ncolors =
     (case sscanf line palette_s of
        (matches, vs) \<Rightarrow>
          if matches > 0 then
            (if matches \<noteq> 3 then (0, store_color palette ncolors vs)
             else if ncolors = MAX_PALETTE_SIZE then (0, store_color palette ncolors vs)
             else read_palette_loop palette_f (store_color palette ncolors vs) (ncolors + 1))
          else read_palette_loop palette_f (store_color palette ncolors vs) ncolors)"

declare read_palette_loop.simps(2) [simp del]

definition read_palette ::
    "(string \<Rightarrow> string option) \<Rightarrow> string \<Rightarrow> string \<Rightarrow> nat \<Rightarrow> color_t list \<Rightarrow> nat \<times> color_t list" where
  "read_palette fopen_r file_name buffer bufsiz palette =
     (case open_palette fopen_r file_name buffer of
        None \<Rightarrow> (0, palette)
      | Some palette_f \<Rightarrow> read_palette_loop (fgets_lines bufsiz palette_f) palette 0)"

text \<open>\<open>main\<close>: \<open>color_bits = (int)log2( ncolors )\<close>.\<close>

definition color_bits_of :: "nat \<Rightarrow> int" where
  "color_bits_of ncolors = \<lfloor>log 2 (real ncolors)\<rfloor>"

definition x_size_s :: string where
  "x_size_s = ''static unsigned int width = %hu;''"

definition y_size_s :: string where
  "y_size_s = ''static unsigned int height = %hu;''"

text \<open>
  \<open>get_image_dimensions\<close>: a \<open>sscanf\<close> that converts nothing leaves its target as it
  was. The result is the returned flag, the two sizes and the lines not yet read.
\<close>

definition sscanf_hu :: "string \<Rightarrow> string \<Rightarrow> u16 \<Rightarrow> u16" where
  "sscanf_hu line format target =
     (case snd (sscanf line format) of [] \<Rightarrow> target | v # _ \<Rightarrow> word_of_nat v)"

fun get_image_dimensions_loop :: "string list \<Rightarrow> u16 \<Rightarrow> u16 \<Rightarrow> bool \<times> u16 \<times> u16 \<times> string list" where
  "get_image_dimensions_loop [] x_size y_size = (False, x_size, y_size, [])"
| "get_image_dimensions_loop (line # image_file) x_size y_size =
     (if sscanf_hu line x_size_s x_size \<noteq> 0 \<and> sscanf_hu line y_size_s y_size \<noteq> 0
      then (True, sscanf_hu line x_size_s x_size, sscanf_hu line y_size_s y_size, image_file)
      else get_image_dimensions_loop image_file
             (sscanf_hu line x_size_s x_size) (sscanf_hu line y_size_s y_size))"

definition get_image_dimensions :: "string list \<Rightarrow> bool \<times> u16 \<times> u16 \<times> string list" where
  "get_image_dimensions image_file = get_image_dimensions_loop image_file 0 0"

text \<open>
  \<open>parse_image\<close>. \<open>strtoul\<close> is called at a digit: it converts the run of digits
  there, gives \<open>ULONG_MAX\<close> and sets \<open>errno\<close> to \<open>ERANGE\<close> when the value does not
  fit, and leaves \<open>errno\<close> alone otherwise; the program never clears \<open>errno\<close>, so its
  value at the call is a parameter. A read outside the buffer or the colour map is
  \<open>Fault\<close>; a store outside \<open>image\<close> is left out, as \<open>list_update\<close> does. The result of
  \<open>parse_image\<close> is the returned count, the message written to \<open>stderr\<close> if any, and
  the image.
\<close>

datatype diagnostic = Too_big | Bad_format_errno | Bad_format | No_end

datatype scan = Fault | Stop diagnostic "u8 list" | Line_end nat "u8 list" nat

definition strtoul_at :: "string \<Rightarrow> nat \<Rightarrow> int \<Rightarrow> (nat \<times> nat \<times> int) option" where
  "strtoul_at buffer line errno =
     (let ds = takeWhile isdigit (drop line buffer) in
      if length buffer \<le> line + length ds then None
      else if decimal ds > ULONG_MAX then Some (ULONG_MAX, line + length ds, ERANGE)
      else Some (decimal ds, line + length ds, errno))"

lemma strtoul_at_end:
  assumes "strtoul_at buffer line errno = Some (v, line1, errno1)"
    and "rd buffer line = Some c" and "isdigit c"
  shows "line < line1 \<and> line1 < length buffer"
proof -
  have "line < length buffer" and "buffer ! line = c"
    using assms(2) by (auto simp add: rd_def split: if_splits)
  then have "drop line buffer = c # drop (Suc line) buffer"
    using Cons_nth_drop_Suc [of line buffer] by simp
  then have "takeWhile isdigit (drop line buffer) \<noteq> []"
    using assms(3) by simp
  then show ?thesis
    using assms(1) by (auto simp add: strtoul_at_def Let_def split: if_splits)
qed

function scan_line :: "string \<Rightarrow> nat \<Rightarrow> u8 list \<Rightarrow> nat \<Rightarrow> u8 list \<Rightarrow> int \<Rightarrow> scan" where
  "scan_line buffer line img image_size cmap errno =
     (case rd buffer line of
        None \<Rightarrow> Fault
      | Some c \<Rightarrow>
          if c \<noteq> newline \<and> line \<noteq> BUFSIZ then
            (if \<not> isdigit c then scan_line buffer (line + 1) img image_size cmap errno
             else if image_size > MAX_IMAGE_SIZE then Stop Too_big img
             else (case strtoul_at buffer line errno of
                     None \<Rightarrow> Fault
                   | Some (v, line1, errno1) \<Rightarrow>
                       if errno1 \<noteq> 0 then Stop Bad_format_errno img
                       else (case rd cmap (v mod 256) of
                               None \<Rightarrow> Fault
                             | Some t \<Rightarrow>
                                 scan_line buffer line1 (img[image_size := t]) (image_size + 1)
                                   cmap errno1)))
          else Line_end line img image_size)"
  by pat_completeness auto
termination
proof (relation "measure (\<lambda>(buffer, line, img, image_size, cmap, errno). length buffer - line)")
  show "wf (measure (\<lambda>(buffer, line, img, image_size, cmap, errno). length buffer - line))"
    by simp
next
  fix buffer :: string and line :: nat and img :: "u8 list" and image_size :: nat
    and cmap :: "u8 list" and errno :: int and c
  assume "rd buffer line = Some c"
  then have "line < length buffer"
    by (simp add: rd_def split: if_splits)
  then show "((buffer, line + 1, img, image_size, cmap, errno),
              (buffer, line, img, image_size, cmap, errno))
             \<in> measure (\<lambda>(buffer, line, img, image_size, cmap, errno). length buffer - line)"
    by simp
next
  fix buffer :: string and line :: nat and img :: "u8 list" and image_size :: nat
    and cmap :: "u8 list" and errno :: int and c x2 v y line1 errno1 t
  assume "rd buffer line = Some c" and "\<not> \<not> isdigit c"
    and "strtoul_at buffer line errno = Some x2" and "(v, y) = x2" and "(line1, errno1) = y"
  then have "line < line1 \<and> line1 < length buffer"
    using strtoul_at_end [of buffer line errno v line1 errno1 c] by simp
  then show "((buffer, line1, img[image_size := t], image_size + 1, cmap, errno1),
              (buffer, line, img, image_size, cmap, errno))
             \<in> measure (\<lambda>(buffer, line, img, image_size, cmap, errno). length buffer - line)"
    by (auto intro: diff_less_mono2)
qed

declare scan_line.simps [simp del]

fun parse_image_loop ::
    "string list \<Rightarrow> string \<Rightarrow> u8 list \<Rightarrow> nat \<Rightarrow> u8 list \<Rightarrow> int \<Rightarrow>
     (nat \<times> diagnostic option \<times> u8 list) option" where
  "parse_image_loop [] buffer img image_size cmap errno = Some (0, Some No_end, img)"
| "parse_image_loop (l # image_file) buffer img image_size cmap errno =
     (if strstr (cstr (fgets_store l buffer)) ''};'' then Some (image_size, None, img)
      else (case scan_line (fgets_store l buffer) 0 img image_size cmap errno of
              Fault \<Rightarrow> None
            | Stop d img1 \<Rightarrow> Some (0, Some d, img1)
            | Line_end line img1 image_size1 \<Rightarrow>
                (case rd (fgets_store l buffer) line of
                   None \<Rightarrow> None
                 | Some c \<Rightarrow>
                     if c \<noteq> newline then Some (0, Some Bad_format, img1)
                     else parse_image_loop image_file (fgets_store l buffer) img1 image_size1
                            cmap errno)))"

declare parse_image_loop.simps(2) [simp del]

definition parse_image ::
    "string list \<Rightarrow> string \<Rightarrow> u8 list \<Rightarrow> u8 list \<Rightarrow> int \<Rightarrow>
     (nat \<times> diagnostic option \<times> u8 list) option" where
  "parse_image image_file buffer img cmap errno = parse_image_loop image_file buffer img 0 cmap errno"

lemmas parse_eval = text_eval fgets_store_def rd_def strtoul_at_def BUFSIZ_def MAX_IMAGE_SIZE_def
  MAX_COL_BYTES_def MAX_ROWS_def
  parse_image_def scan_line.simps parse_image_loop.simps

section \<open>The image dimensions\<close>

definition declared :: "string \<Rightarrow> string \<Rightarrow> u16 option" where
  "declared line format =
     (case snd (sscanf line format) of [] \<Rightarrow> None | v # _ \<Rightarrow> Some (word_of_nat v))"

definition no_value :: "string \<Rightarrow> string \<Rightarrow> bool" where
  "no_value format line \<longleftrightarrow> declared line format = None \<or> declared line format = Some 0"

lemma sscanf_hu_declared:
  "sscanf_hu line format target = (case declared line format of None \<Rightarrow> target | Some v \<Rightarrow> v)"
  by (simp add: sscanf_hu_def declared_def split: list.splits)

lemma sscanf_hu_no_value: "no_value format line \<Longrightarrow> sscanf_hu line format 0 = 0"
  by (auto simp add: sscanf_hu_declared no_value_def)

lemma dimensions_found:
  "get_image_dimensions_loop image_file x y = (True, x', y', rest) \<Longrightarrow>
     x' \<noteq> 0 \<and> y' \<noteq> 0 \<and>
     (x' = x \<or> (\<exists>l \<in> set image_file. declared l x_size_s = Some x')) \<and>
     (y' = y \<or> (\<exists>l \<in> set image_file. declared l y_size_s = Some y'))"
proof (induction image_file arbitrary: x y)
  case Nil
  then show ?case by simp
next
  case (Cons l image_file)
  show ?case
  proof (cases "sscanf_hu l x_size_s x \<noteq> 0 \<and> sscanf_hu l y_size_s y \<noteq> 0")
    case True
    then have "x' = sscanf_hu l x_size_s x" and "y' = sscanf_hu l y_size_s y"
      using Cons.prems by simp_all
    then show ?thesis
      using True by (auto simp add: sscanf_hu_declared split: option.splits)
  next
    case False
    then have "get_image_dimensions_loop image_file (sscanf_hu l x_size_s x)
                 (sscanf_hu l y_size_s y) = (True, x', y', rest)"
      using Cons.prems by auto
    from Cons.IH [OF this] show ?thesis
      by (auto simp add: sscanf_hu_declared split: option.splits)
  qed
qed

lemma no_width:
  "\<forall>l \<in> set image_file. no_value x_size_s l \<Longrightarrow>
     \<not> fst (get_image_dimensions_loop image_file 0 y)"
  by (induction image_file arbitrary: y) (simp_all add: sscanf_hu_no_value)

lemma no_height:
  "\<forall>l \<in> set image_file. no_value y_size_s l \<Longrightarrow>
     \<not> fst (get_image_dimensions_loop image_file x 0)"
  by (induction image_file arbitrary: x) (simp_all add: sscanf_hu_no_value)

lemma leading_zero:
  "\<forall>l \<in> set before. no_value x_size_s l \<and> no_value y_size_s l \<Longrightarrow>
     get_image_dimensions_loop (before @ image_file) 0 0 = get_image_dimensions_loop image_file 0 0"
  by (induction before) (simp_all add: sscanf_hu_no_value)

lemma word_nonzero: "w \<noteq> 0 \<Longrightarrow> 1 \<le> unat w"
  for w :: u16
  by (simp add: Suc_le_eq unat_gt_0)

text \<open>
  Claim C10, as it holds of the code. When \<open>get_image_dimensions\<close> returns true, both
  sizes are at least 1 and each is the value that some line declares. A file in which
  every line declares no width, or a width of 0, is rejected, and so is one without a
  nonzero height. Lines that declare nothing or 0 for both sizes are skipped as long as
  they come before the first nonzero declaration.
\<close>
theorem C10_image_dimensions:
  assumes "get_image_dimensions image_file = (ok, x_size, y_size, rest)"
  shows "(ok \<longrightarrow> 1 \<le> unat x_size \<and> 1 \<le> unat y_size \<and>
            list_ex (\<lambda>l. declared l x_size_s = Some x_size) image_file \<and>
            list_ex (\<lambda>l. declared l y_size_s = Some y_size) image_file) \<and>
         (list_all (no_value x_size_s) image_file \<longrightarrow> \<not> ok) \<and>
         (list_all (no_value y_size_s) image_file \<longrightarrow> \<not> ok) \<and>
         (\<forall>before. list_all (\<lambda>l. no_value x_size_s l \<and> no_value y_size_s l) before \<longrightarrow>
            get_image_dimensions (before @ image_file) = (ok, x_size, y_size, rest))"
proof -
  have found: "1 \<le> unat x_size \<and> 1 \<le> unat y_size \<and>
            list_ex (\<lambda>l. declared l x_size_s = Some x_size) image_file \<and>
            list_ex (\<lambda>l. declared l y_size_s = Some y_size) image_file" if ok
  proof -
    have "get_image_dimensions_loop image_file 0 0 = (True, x_size, y_size, rest)"
      using assms that by (simp add: get_image_dimensions_def)
    from dimensions_found [OF this]
    have nz: "x_size \<noteq> 0" "y_size \<noteq> 0"
      and x: "\<exists>l \<in> set image_file. declared l x_size_s = Some x_size"
      and y: "\<exists>l \<in> set image_file. declared l y_size_s = Some y_size"
      by auto
    show ?thesis
      using word_nonzero [OF nz(1)] word_nonzero [OF nz(2)] x y
      by (simp only: list_ex_iff simp_thms)
  qed
  have width: "\<not> ok" if "list_all (no_value x_size_s) image_file"
    using no_width [of image_file 0] that assms
    by (simp add: get_image_dimensions_def list_all_iff)
  have height: "\<not> ok" if "list_all (no_value y_size_s) image_file"
    using no_height [of image_file 0] that assms
    by (simp add: get_image_dimensions_def list_all_iff)
  have skip: "get_image_dimensions (before @ image_file) = (ok, x_size, y_size, rest)"
    if "list_all (\<lambda>l. no_value x_size_s l \<and> no_value y_size_s l) before" for before
    using leading_zero [of before image_file] that assms
    by (simp add: get_image_dimensions_def list_all_iff)
  show ?thesis
    using found width height skip by blast
qed

lemmas dimension_eval = get_image_dimensions_def sscanf_hu_def sscanf_def x_size_s_def
  y_size_s_def declared_def no_value_def text_eval

lemma dimensions_sample:
  "get_image_dimensions
     [''static unsigned int width = 5;\<newline>'', ''static unsigned int height = 3;\<newline>''] =
   (True, 5, 3, [])"
  by (simp add: dimension_eval)

theorem C10_image_dimensions_witness:
  "get_image_dimensions
     [''static unsigned int width = 5;\<newline>'', ''static unsigned int height = 3;\<newline>''] =
     (True, 5, 3, []) \<and>
   1 \<le> unat (5 :: u16) \<and> 1 \<le> unat (3 :: u16) \<and>
   list_ex (\<lambda>l. declared l x_size_s = Some 5)
     [''static unsigned int width = 5;\<newline>'', ''static unsigned int height = 3;\<newline>''] \<and>
   list_ex (\<lambda>l. declared l y_size_s = Some 3)
     [''static unsigned int width = 5;\<newline>'', ''static unsigned int height = 3;\<newline>'']"
  using C10_image_dimensions [OF dimensions_sample, THEN conjunct1, THEN mp] dimensions_sample
  by simp

text \<open>
  Claim C10 as written fails: a width of 0 declared after a width of 5 erases it, so the
  file is rejected, while the same file without that line is accepted.
\<close>
theorem C10_image_dimensions_counterexample:
  "get_image_dimensions
     [''static unsigned int width = 5;\<newline>'', ''static unsigned int width = 0;\<newline>'',
      ''static unsigned int height = 3;\<newline>''] = (False, 0, 3, []) \<and>
   no_value x_size_s ''static unsigned int width = 0;\<newline>'' \<and>
   get_image_dimensions
     [''static unsigned int width = 5;\<newline>'', ''static unsigned int height = 3;\<newline>''] =
   (True, 5, 3, [])"
  by (simp add: dimension_eval)

section \<open>The number of bit planes\<close>

lemma color_bits_of_eq:
  assumes "2 ^ k \<le> ncolors" and "ncolors < 2 ^ (k + 1)"
  shows "color_bits_of ncolors = int k"
proof -
  have pos: "0 < real ncolors"
    using assms(1) by (metis of_nat_0_less_iff less_le_trans zero_less_numeral zero_less_power)
  have lo: "(2 :: real) ^ k \<le> real ncolors"
    using assms(1) by (metis of_nat_le_iff of_nat_numeral of_nat_power)
  have hi: "real ncolors < 2 ^ (k + 1)"
    using assms(2) by (metis of_nat_less_iff of_nat_numeral of_nat_power)
  have "real k \<le> log 2 (real ncolors)"
    using lo pos by (simp add: le_log_iff powr_realpow)
  moreover have "log 2 (real ncolors) < real (k + 1)"
  proof -
    have "(2 :: real) powr real (k + 1) = 2 ^ (k + 1)"
      by (rule powr_realpow) simp
    then have "real ncolors < 2 powr real (k + 1)"
      using hi by simp
    then show ?thesis
      using pos log_less_iff [of 2 "real ncolors" "real (k + 1)"] by simp
  qed
  ultimately show ?thesis
    unfolding color_bits_of_def by (intro floor_unique) simp_all
qed

lemma read_palette_loop_le:
  "ncolors \<le> MAX_PALETTE_SIZE \<Longrightarrow> fst (read_palette_loop palette_f palette ncolors) \<le> MAX_PALETTE_SIZE"
  by (induction palette_f arbitrary: palette ncolors)
     (auto simp add: read_palette_loop.simps split: prod.splits)

lemma read_palette_le: "fst (read_palette fopen_r file_name buffer bufsiz palette) \<le> MAX_PALETTE_SIZE"
  using read_palette_loop_le [of 0]
  by (simp add: read_palette_def split: option.splits)

lemma color_bits_range:
  assumes "2 \<le> ncolors" and "ncolors \<le> 16"
  shows "1 \<le> color_bits_of ncolors \<and> color_bits_of ncolors \<le> 4"
proof -
  consider "ncolors < 4" | "4 \<le> ncolors" "ncolors < 8" | "8 \<le> ncolors" "ncolors < 16" | "ncolors = 16"
    using assms(2) by linarith
  then show ?thesis
  proof cases
    case 1
    then show ?thesis using color_bits_of_eq [of 1 ncolors] assms(1) by simp
  next
    case 2
    then show ?thesis using color_bits_of_eq [of 2 ncolors] by simp
  next
    case 3
    then show ?thesis using color_bits_of_eq [of 3 ncolors] by simp
  next
    case 4
    then show ?thesis using color_bits_of_eq [of 4 ncolors] by simp
  qed
qed

text \<open>
  Claim C9, as it holds of the code. \<open>read_palette\<close> returns at most 16; from 2 colours on
  the number of planes \<open>(int)log2( ncolors )\<close> lies between 1 and 4, and a palette of one
  colour gives no plane at all.
\<close>
theorem C9_color_bits:
  assumes "read_palette fopen_r file_name buffer bufsiz palette = (ncolors, palette')"
  shows "ncolors \<le> 16 \<and>
         (2 \<le> ncolors \<longrightarrow> 1 \<le> color_bits_of ncolors \<and> color_bits_of ncolors \<le> 4) \<and>
         (ncolors = 1 \<longrightarrow> color_bits_of ncolors = 0)"
proof -
  have le: "ncolors \<le> 16"
    using read_palette_le [of fopen_r file_name buffer bufsiz palette] assms
    by (simp add: MAX_PALETTE_SIZE_def)
  have "color_bits_of 1 = 0"
    using color_bits_of_eq [of 0 1] by simp
  then show ?thesis
    using le color_bits_range [of ncolors] by auto
qed

lemmas palette_eval = read_palette_def open_palette_def palette_sig_def palette_s_def
  strncmp_equal_def fread_store_def fgets_lines.simps store_color_def sscanf_def text_eval
  MAX_PALETTE_SIZE_def replicate_num read_palette_loop.simps

lemma palette_sample:
  "read_palette (\<lambda>name. Some ''GIMP Palette\<newline>Name: bw\<newline>#\<newline>  0   0   0 Black\<newline>255 255 255 White\<newline>'')
     ''bw.gpl'' (replicate 64 NUL) 64 (replicate 16 \<lparr>r = 0, g = 0, b = 0\<rparr>) =
   (2, [\<lparr>r = 0, g = 0, b = 0\<rparr>, \<lparr>r = 255, g = 255, b = 255\<rparr>] @
       replicate 14 \<lparr>r = 0, g = 0, b = 0\<rparr>)"
  by (simp add: palette_eval)

theorem C9_color_bits_witness:
  "read_palette (\<lambda>name. Some ''GIMP Palette\<newline>Name: bw\<newline>#\<newline>  0   0   0 Black\<newline>255 255 255 White\<newline>'')
     ''bw.gpl'' (replicate 64 NUL) 64 (replicate 16 \<lparr>r = 0, g = 0, b = 0\<rparr>) =
   (2, [\<lparr>r = 0, g = 0, b = 0\<rparr>, \<lparr>r = 255, g = 255, b = 255\<rparr>] @
       replicate 14 \<lparr>r = 0, g = 0, b = 0\<rparr>) \<and>
   1 \<le> color_bits_of 2 \<and> color_bits_of 2 \<le> 4"
  using C9_color_bits [OF palette_sample, THEN conjunct2, THEN conjunct1, THEN mp] palette_sample
  by simp

text \<open>
  Claim C9 as written fails for a palette of one colour: \<open>read_palette\<close> accepts it and
  returns 1, and \<open>(int)log2( 1 )\<close> is 0.
\<close>
theorem C9_color_bits_counterexample:
  "fst (read_palette (\<lambda>name. Some ''GIMP Palette\<newline>  0   0   0 Black\<newline>'')
     ''one.gpl'' (replicate 64 NUL) 64 (replicate 16 \<lparr>r = 0, g = 0, b = 0\<rparr>)) = 1 \<and>
   color_bits_of 1 = 0"
proof -
  have "color_bits_of 1 = 0"
    using color_bits_of_eq [of 0 1] by simp
  then show ?thesis
    by (simp add: palette_eval)
qed

section \<open>The palette reader\<close>

text \<open>
  In the words of the specification: a line is a colour line when all three numbers are
  matched, it is malformed when one or two are, and the colours of the palette are the
  colour lines in their order.
\<close>

definition matched :: "string \<Rightarrow> int" where
  "matched line = fst (sscanf line palette_s)"

definition malformed :: "string \<Rightarrow> bool" where
  "malformed line \<longleftrightarrow> matched line = 1 \<or> matched line = 2"

definition color_of :: "string \<Rightarrow> color_t" where
  "color_of line =
     \<lparr>r = word_of_nat (snd (sscanf line palette_s) ! 0),
      g = word_of_nat (snd (sscanf line palette_s) ! 1),
      b = word_of_nat (snd (sscanf line palette_s) ! 2)\<rparr>"

definition color_lines :: "string list \<Rightarrow> string list" where
  "color_lines ls = filter (\<lambda>l. matched l = 3) ls"

lemma sscanf_run_count:
  "sscanf_run ds s vs = (m, vs') \<Longrightarrow>
     (m = int (length vs') \<or> m = EOF \<and> vs' = []) \<and> length vs' \<le> length vs + length ds"
proof (induction ds s vs rule: sscanf_run.induct)
  case (1 s vs)
  then show ?case by auto
next
  case (2 ds s vs)
  then show ?case by auto
next
  case (3 c ds s vs)
  then show ?case by (cases s) (auto split: if_splits)
next
  case (4 bits ds s vs)
  then show ?case by (fastforce split: if_splits option.splits)
next
  case (5 ds s vs)
  then show ?case by (auto split: if_splits)
qed

lemma parse_palette_s:
  "parse_format palette_s =
     [Unsigned 8, Space, Unsigned 8, Space, Unsigned 8, Space, Skip_string]"
  by (simp add: palette_s_def isspace_def)

lemma sscanf_run_values:
  "sscanf_run ds s vs = (m, vs') \<Longrightarrow>
     length vs' \<le> length vs + length (filter (\<lambda>d. \<exists>bits. d = Unsigned bits) ds)"
proof (induction ds s vs rule: sscanf_run.induct)
  case (1 s vs)
  then show ?case by auto
next
  case (2 ds s vs)
  then show ?case by auto
next
  case (3 c ds s vs)
  then show ?case by (cases s) (auto split: if_splits)
next
  case (4 bits ds s vs)
  then show ?case by (fastforce split: if_splits option.splits)
next
  case (5 ds s vs)
  then show ?case by (auto split: if_splits)
qed

lemma palette_line:
  assumes "sscanf line palette_s = (m, vs)"
  shows "(m = int (length vs) \<or> m = EOF \<and> vs = []) \<and> length vs \<le> 3"
proof -
  have run: "sscanf_run (parse_format palette_s) (cstr line) [] = (m, vs)"
    using assms by (simp add: sscanf_def)
  have "length vs \<le> 3"
    using sscanf_run_values [OF run] by (simp add: parse_palette_s)
  then show ?thesis
    using sscanf_run_count [OF run] by simp
qed

lemma matched_cases:
  "matched line \<le> 0 \<and> snd (sscanf line palette_s) = [] \<or> malformed line \<or>
   matched line = 3 \<and> length (snd (sscanf line palette_s)) = 3"
proof -
  obtain m vs where s: "sscanf line palette_s = (m, vs)"
    by (cases "sscanf line palette_s")
  from palette_line [OF s]
  have c: "m = int (length vs) \<or> m = EOF \<and> vs = []" and l: "length vs \<le> 3"
    by auto
  consider "length vs = 0" | "length vs = 1" | "length vs = 2" | "length vs = 3"
    using l by linarith
  then show ?thesis
  proof cases
    case 1
    then show ?thesis
      using c by (auto simp add: matched_def malformed_def s EOF_def)
  next
    case 2
    then show ?thesis
      using c by (auto simp add: matched_def malformed_def s EOF_def)
  next
    case 3
    then show ?thesis
      using c by (auto simp add: matched_def malformed_def s EOF_def)
  next
    case 4
    then show ?thesis
      using c by (auto simp add: matched_def malformed_def s EOF_def)
  qed
qed

lemma store_nothing: "store_color palette ncolors [] = palette"
  by (simp add: store_color_def)

lemma store_three:
  assumes "length (snd (sscanf line palette_s)) = 3" and "ncolors < length palette"
  shows "store_color palette ncolors (snd (sscanf line palette_s)) = palette[ncolors := color_of line]"
proof -
  obtain v0 v1 v2 where "snd (sscanf line palette_s) = [v0, v1, v2]"
    using assms(1) by (auto simp add: length_Suc_conv numeral_3_eq_3)
  then show ?thesis
    using assms(2) by (simp add: store_color_def color_of_def)
qed

lemma loop_skip:
  assumes "matched line \<le> 0" and "snd (sscanf line palette_s) = []"
  shows "read_palette_loop (line # palette_f) palette ncolors =
         read_palette_loop palette_f palette ncolors"
proof -
  obtain m vs where s: "sscanf line palette_s = (m, vs)"
    by (cases "sscanf line palette_s")
  have "m \<le> 0" and "vs = []"
    using assms by (simp_all add: matched_def s)
  then show ?thesis
    by (simp add: read_palette_loop.simps s store_nothing)
qed

lemma loop_malformed:
  assumes "malformed line"
  shows "fst (read_palette_loop (line # palette_f) palette ncolors) = 0"
proof -
  obtain m vs where s: "sscanf line palette_s = (m, vs)"
    by (cases "sscanf line palette_s")
  have "m = 1 \<or> m = 2"
    using assms by (simp add: malformed_def matched_def s)
  then show ?thesis
    by (auto simp add: read_palette_loop.simps s)
qed

lemma loop_color:
  assumes "matched line = 3" and "length (snd (sscanf line palette_s)) = 3"
    and "ncolors < length palette"
  shows "read_palette_loop (line # palette_f) palette ncolors =
         (if ncolors = MAX_PALETTE_SIZE then (0, palette[ncolors := color_of line])
          else read_palette_loop palette_f (palette[ncolors := color_of line]) (ncolors + 1))"
proof -
  obtain m vs where s: "sscanf line palette_s = (m, vs)"
    by (cases "sscanf line palette_s")
  have m: "m = 3"
    using assms(1) by (simp add: matched_def s)
  have "store_color palette ncolors vs = palette[ncolors := color_of line]"
    using store_three [OF assms(2,3)] by (simp add: s)
  then show ?thesis
    by (auto simp add: read_palette_loop.simps s m)
qed

lemma loop_full:
  assumes "matched line = 3"
  shows "fst (read_palette_loop (line # palette_f) palette MAX_PALETTE_SIZE) = 0"
proof -
  obtain m vs where s: "sscanf line palette_s = (m, vs)"
    by (cases "sscanf line palette_s")
  have m: "m = 3"
    using assms(1) by (simp add: matched_def s)
  show ?thesis
    by (simp add: read_palette_loop.simps s m)
qed

lemma not_color_lines:
  "matched line \<le> 0 \<Longrightarrow> color_lines (line # ls) = color_lines ls"
  "malformed line \<Longrightarrow> color_lines (line # ls) = color_lines ls"
  "matched line = 3 \<Longrightarrow> color_lines (line # ls) = line # color_lines ls"
  by (auto simp add: color_lines_def malformed_def)

lemma loop_has_malformed:
  "\<exists>l \<in> set palette_f. malformed l \<Longrightarrow> length palette = MAX_PALETTE_SIZE \<Longrightarrow>
     ncolors \<le> MAX_PALETTE_SIZE \<Longrightarrow> fst (read_palette_loop palette_f palette ncolors) = 0"
proof (induction palette_f arbitrary: palette ncolors)
  case Nil
  then show ?case by simp
next
  case (Cons line palette_f)
  consider (skip) "matched line \<le> 0" "snd (sscanf line palette_s) = []"
    | (bad) "malformed line"
    | (color) "matched line = 3" "length (snd (sscanf line palette_s)) = 3"
    using matched_cases [of line] by blast
  then show ?case
  proof cases
    case skip
    then have "\<exists>l \<in> set palette_f. malformed l"
      using Cons.prems(1) by (auto simp add: malformed_def)
    then show ?thesis
      using Cons.IH [of palette ncolors] Cons.prems(2,3) by (simp add: loop_skip [OF skip])
  next
    case bad
    then show ?thesis by (rule loop_malformed)
  next
    case color
    show ?thesis
    proof (cases "ncolors = MAX_PALETTE_SIZE")
      case True
      then show ?thesis using loop_full [OF color(1)] by simp
    next
      case False
      then have n: "ncolors < length palette"
        using Cons.prems(2,3) by simp
      have "\<exists>l \<in> set palette_f. malformed l"
        using Cons.prems(1) color(1) by (auto simp add: malformed_def)
      then have "fst (read_palette_loop palette_f (palette[ncolors := color_of line]) (ncolors + 1)) = 0"
        using Cons.IH [of "palette[ncolors := color_of line]" "ncolors + 1"] Cons.prems(2) n
        by simp
      then show ?thesis
        using False by (simp add: loop_color [OF color n])
    qed
  qed
qed

lemma loop_too_many:
  "MAX_PALETTE_SIZE < ncolors + length (color_lines palette_f) \<Longrightarrow>
     length palette = MAX_PALETTE_SIZE \<Longrightarrow> ncolors \<le> MAX_PALETTE_SIZE \<Longrightarrow>
     fst (read_palette_loop palette_f palette ncolors) = 0"
proof (induction palette_f arbitrary: palette ncolors)
  case Nil
  then show ?case by (simp add: color_lines_def)
next
  case (Cons line palette_f)
  consider (skip) "matched line \<le> 0" "snd (sscanf line palette_s) = []"
    | (bad) "malformed line"
    | (color) "matched line = 3" "length (snd (sscanf line palette_s)) = 3"
    using matched_cases [of line] by blast
  then show ?case
  proof cases
    case skip
    then show ?thesis
      using Cons.IH [of ncolors palette] Cons.prems
      by (simp add: loop_skip [OF skip] not_color_lines(1) [OF skip(1)])
  next
    case bad
    then show ?thesis by (rule loop_malformed)
  next
    case color
    show ?thesis
    proof (cases "ncolors = MAX_PALETTE_SIZE")
      case True
      then show ?thesis using loop_full [OF color(1)] by simp
    next
      case False
      then have n: "ncolors < length palette"
        using Cons.prems(2,3) by simp
      have "fst (read_palette_loop palette_f (palette[ncolors := color_of line]) (ncolors + 1)) = 0"
        using Cons.IH [of "ncolors + 1" "palette[ncolors := color_of line]"] Cons.prems n
        by (simp add: not_color_lines(3) [OF color(1)])
      then show ?thesis
        using False by (simp add: loop_color [OF color n])
    qed
  qed
qed

lemma loop_colors:
  "\<forall>l \<in> set palette_f. \<not> malformed l \<Longrightarrow>
     ncolors + length (color_lines palette_f) \<le> MAX_PALETTE_SIZE \<Longrightarrow>
     length palette = MAX_PALETTE_SIZE \<Longrightarrow>
     read_palette_loop palette_f palette ncolors =
       (ncolors + length (color_lines palette_f),
        take ncolors palette @ map color_of (color_lines palette_f) @
        drop (ncolors + length (color_lines palette_f)) palette)"
proof (induction palette_f arbitrary: palette ncolors)
  case Nil
  then show ?case by (simp add: color_lines_def)
next
  case (Cons line palette_f)
  consider (skip) "matched line \<le> 0" "snd (sscanf line palette_s) = []"
    | (color) "matched line = 3" "length (snd (sscanf line palette_s)) = 3"
    using matched_cases [of line] Cons.prems(1) by auto
  then show ?case
  proof cases
    case skip
    then show ?thesis
      using Cons.IH [of ncolors palette] Cons.prems
      by (simp add: loop_skip [OF skip] not_color_lines(1) [OF skip(1)])
  next
    case color
    have cl: "color_lines (line # palette_f) = line # color_lines palette_f"
      by (rule not_color_lines(3) [OF color(1)])
    have n: "ncolors < length palette" and ne: "ncolors \<noteq> MAX_PALETTE_SIZE"
      using Cons.prems(2,3) by (simp_all add: cl)
    have "read_palette_loop palette_f (palette[ncolors := color_of line]) (ncolors + 1) =
       (ncolors + 1 + length (color_lines palette_f),
        take (ncolors + 1) (palette[ncolors := color_of line]) @
        map color_of (color_lines palette_f) @
        drop (ncolors + 1 + length (color_lines palette_f)) (palette[ncolors := color_of line]))"
      using Cons.prems by (intro Cons.IH) (simp_all add: cl)
    moreover have "take (ncolors + 1) (palette[ncolors := color_of line]) =
        take ncolors palette @ [color_of line]"
      using n by (simp add: take_Suc_conv_app_nth)
    ultimately show ?thesis
      using ne by (simp add: loop_color [OF color n] cl)
  qed
qed

lemma open_palette_sig:
  assumes "fopen_r file_name = Some (palette_sig @ body)" and "13 < length buffer"
  shows "open_palette fopen_r file_name buffer =
         (if buffer ! 13 = NUL then Some body else None)"
proof -
  have b: "drop 13 buffer = buffer ! 13 # drop 14 buffer"
    using assms(2) Cons_nth_drop_Suc [of 13 buffer] by simp
  have sig_len: "length palette_sig = 13"
    by (simp add: palette_sig_def)
  have no_nul: "c \<noteq> NUL" if "c \<in> set palette_sig" for c
    using that by (auto simp add: palette_sig_def NUL_def)
  have c1: "cstr (palette_sig @ xs) = palette_sig @ cstr xs" for xs
    unfolding cstr_def using no_nul by (rule takeWhile_append2)
  have c2: "cstr (palette_sig @ [NUL]) = palette_sig"
    by (simp add: c1) (simp add: cstr_def)
  have fr: "fread_store palette_sig buffer = palette_sig @ drop 13 buffer"
    by (simp add: fread_store_def sig_len)
  have cmp: "strncmp_equal (palette_sig @ drop 13 buffer) (palette_sig @ [NUL])
      (Suc (length palette_sig)) \<longleftrightarrow> buffer ! 13 = NUL"
    unfolding strncmp_equal_def c1 c2 b
    by (simp add: sig_len cstr_def)
  show ?thesis
    by (simp add: open_palette_def assms(1) fr cmp)
qed

text \<open>
  Claim C8. The file starts with the signature line and \<open>palette\<close> has its 16 entries. If
  some line is malformed, or if there are more than 16 colour lines, \<open>read_palette\<close>
  returns 0. A result other than 0 is the number of colour lines, and the palette then
  starts with their colours in order. The reader does succeed so on every file with no
  malformed line and at most 16 colour lines, provided the byte of the buffer behind the
  signature is NUL, which \<open>open_palette\<close> compares too.
\<close>
theorem C8_read_palette:
  assumes "fopen_r file_name = Some (palette_sig @ body)"
    and "length palette = MAX_PALETTE_SIZE"
    and "13 < length buffer"
  shows "(list_ex malformed (fgets_lines bufsiz body) \<longrightarrow>
            fst (read_palette fopen_r file_name buffer bufsiz palette) = 0) \<and>
         (16 < length (color_lines (fgets_lines bufsiz body)) \<longrightarrow>
            fst (read_palette fopen_r file_name buffer bufsiz palette) = 0) \<and>
         (fst (read_palette fopen_r file_name buffer bufsiz palette) \<noteq> 0 \<longrightarrow>
            read_palette fopen_r file_name buffer bufsiz palette =
              (length (color_lines (fgets_lines bufsiz body)),
               map color_of (color_lines (fgets_lines bufsiz body)) @
               drop (length (color_lines (fgets_lines bufsiz body))) palette)) \<and>
         (buffer ! 13 = NUL \<and> \<not> list_ex malformed (fgets_lines bufsiz body) \<and>
          length (color_lines (fgets_lines bufsiz body)) \<le> 16 \<longrightarrow>
            read_palette fopen_r file_name buffer bufsiz palette =
              (length (color_lines (fgets_lines bufsiz body)),
               map color_of (color_lines (fgets_lines bufsiz body)) @
               drop (length (color_lines (fgets_lines bufsiz body))) palette))"
proof -
  define ls where "ls = fgets_lines bufsiz body"
  define result where "result = read_palette fopen_r file_name buffer bufsiz palette"
  have closed: "result = (0, palette)" if "buffer ! 13 \<noteq> NUL"
    using that by (simp add: result_def read_palette_def open_palette_sig [of fopen_r file_name body buffer, OF assms(1,3)])
  have opened: "result = read_palette_loop ls palette 0" if "buffer ! 13 = NUL"
    using that by (simp add: result_def ls_def read_palette_def open_palette_sig [of fopen_r file_name body buffer, OF assms(1,3)])
  have bad: "fst result = 0" if "list_ex malformed ls"
  proof (cases "buffer ! 13 = NUL")
    case True
    have "\<exists>l \<in> set ls. malformed l"
      using that by (simp add: list_ex_iff)
    then show ?thesis
      using loop_has_malformed [of ls palette 0] assms(2) by (simp add: opened [OF True])
  next
    case False
    then show ?thesis by (simp add: closed)
  qed
  have many: "fst result = 0" if "16 < length (color_lines ls)"
  proof (cases "buffer ! 13 = NUL")
    case True
    show ?thesis
      using loop_too_many [of 0 ls palette] assms(2) that
      by (simp add: opened [OF True] MAX_PALETTE_SIZE_def)
  next
    case False
    then show ?thesis by (simp add: closed)
  qed
  have good: "result = (length (color_lines ls),
               map color_of (color_lines ls) @ drop (length (color_lines ls)) palette)"
    if "buffer ! 13 = NUL" and "\<not> list_ex malformed ls" and "length (color_lines ls) \<le> 16"
  proof -
    have "\<forall>l \<in> set ls. \<not> malformed l"
      using that(2) by (simp add: list_ex_iff)
    then show ?thesis
      using loop_colors [of ls 0 palette] assms(2) that(3)
      by (simp add: opened [OF that(1)] MAX_PALETTE_SIZE_def)
  qed
  have success: "result = (length (color_lines ls),
               map color_of (color_lines ls) @ drop (length (color_lines ls)) palette)"
    if "fst result \<noteq> 0"
  proof -
    have "buffer ! 13 = NUL"
    proof (rule ccontr)
      assume "buffer ! 13 \<noteq> NUL"
      from closed [OF this] that show False
        by simp
    qed
    moreover have "\<not> list_ex malformed ls"
    proof
      assume "list_ex malformed ls"
      from bad [OF this] that show False
        by simp
    qed
    moreover have "length (color_lines ls) \<le> 16"
    proof (rule ccontr)
      assume "\<not> length (color_lines ls) \<le> 16"
      then have "16 < length (color_lines ls)"
        by simp
      from many [OF this] that show False
        by simp
    qed
    ultimately show ?thesis
      by (rule good)
  qed
  show ?thesis
    using bad many good success unfolding ls_def result_def by blast
qed

lemma palette_lines_sample:
  "fgets_lines 64 ''Name: bw\<newline>#\<newline>  0   0   0 Black\<newline>255 255 255 White\<newline>'' =
     [''Name: bw\<newline>'', ''#\<newline>'', ''  0   0   0 Black\<newline>'', ''255 255 255 White\<newline>'']"
  by (simp add: fgets_lines.simps newline_def)

lemma matched_sample:
  "matched ''Name: bw\<newline>'' = 0"
  "matched ''#\<newline>'' = 0"
  "matched ''  0   0   0 Black\<newline>'' = 3"
  "matched ''255 255 255 White\<newline>'' = 3"
  "matched ''255 255\<newline>'' = 2"
  by (simp_all add: matched_def sscanf_def palette_s_def text_eval)

lemma palette_lines_bad:
  "fgets_lines 64 ''  0   0   0 Black\<newline>255 255\<newline>'' =
     [''  0   0   0 Black\<newline>'', ''255 255\<newline>'']"
  by (simp add: fgets_lines.simps newline_def)

theorem C8_read_palette_witness:
  "(\<lambda>name. Some ''GIMP Palette\<newline>Name: bw\<newline>#\<newline>  0   0   0 Black\<newline>255 255 255 White\<newline>'') ''bw.gpl'' =
     Some (palette_sig @ ''Name: bw\<newline>#\<newline>  0   0   0 Black\<newline>255 255 255 White\<newline>'') \<and>
   length (replicate 16 \<lparr>r = 0, g = 0, b = 0\<rparr>) = MAX_PALETTE_SIZE \<and>
   13 < length (replicate 64 NUL) \<and>
   replicate 64 NUL ! 13 = NUL \<and>
   \<not> list_ex malformed
     (fgets_lines 64 ''Name: bw\<newline>#\<newline>  0   0   0 Black\<newline>255 255 255 White\<newline>'') \<and>
   length (color_lines
     (fgets_lines 64 ''Name: bw\<newline>#\<newline>  0   0   0 Black\<newline>255 255 255 White\<newline>'')) \<le> 16 \<and>
   read_palette (\<lambda>name. Some ''GIMP Palette\<newline>Name: bw\<newline>#\<newline>  0   0   0 Black\<newline>255 255 255 White\<newline>'')
       ''bw.gpl'' (replicate 64 NUL) 64 (replicate 16 \<lparr>r = 0, g = 0, b = 0\<rparr>) =
     (length (color_lines
        (fgets_lines 64 ''Name: bw\<newline>#\<newline>  0   0   0 Black\<newline>255 255 255 White\<newline>'')),
      map color_of (color_lines
        (fgets_lines 64 ''Name: bw\<newline>#\<newline>  0   0   0 Black\<newline>255 255 255 White\<newline>'')) @
      drop (length (color_lines
        (fgets_lines 64 ''Name: bw\<newline>#\<newline>  0   0   0 Black\<newline>255 255 255 White\<newline>'')))
        (replicate 16 \<lparr>r = 0, g = 0, b = 0\<rparr>)) \<and>
   read_palette (\<lambda>name. Some ''GIMP Palette\<newline>Name: bw\<newline>#\<newline>  0   0   0 Black\<newline>255 255 255 White\<newline>'')
       ''bw.gpl'' (replicate 64 NUL) 64 (replicate 16 \<lparr>r = 0, g = 0, b = 0\<rparr>) =
     (2, [\<lparr>r = 0, g = 0, b = 0\<rparr>, \<lparr>r = 255, g = 255, b = 255\<rparr>] @
         replicate 14 \<lparr>r = 0, g = 0, b = 0\<rparr>) \<and>
   (\<lambda>name. Some ''GIMP Palette\<newline>  0   0   0 Black\<newline>255 255\<newline>'') ''bad.gpl'' =
     Some (palette_sig @ ''  0   0   0 Black\<newline>255 255\<newline>'') \<and>
   list_ex malformed (fgets_lines 64 ''  0   0   0 Black\<newline>255 255\<newline>'') \<and>
   fst (read_palette (\<lambda>name. Some ''GIMP Palette\<newline>  0   0   0 Black\<newline>255 255\<newline>'')
       ''bad.gpl'' (replicate 64 NUL) 64 (replicate 16 \<lparr>r = 0, g = 0, b = 0\<rparr>)) = 0"
proof -
  have o: "(\<lambda>name. Some ''GIMP Palette\<newline>Name: bw\<newline>#\<newline>  0   0   0 Black\<newline>255 255 255 White\<newline>'') ''bw.gpl'' =
     Some (palette_sig @ ''Name: bw\<newline>#\<newline>  0   0   0 Black\<newline>255 255 255 White\<newline>'')"
    by (simp add: palette_sig_def)
  have o': "(\<lambda>name. Some ''GIMP Palette\<newline>  0   0   0 Black\<newline>255 255\<newline>'') ''bad.gpl'' =
     Some (palette_sig @ ''  0   0   0 Black\<newline>255 255\<newline>'')"
    by (simp add: palette_sig_def)
  have p: "length (replicate 16 \<lparr>r = 0, g = 0, b = 0\<rparr>) = MAX_PALETTE_SIZE"
    by (simp add: MAX_PALETTE_SIZE_def)
  have l: "13 < length (replicate 64 NUL)"
    by simp
  have n: "replicate 64 NUL ! 13 = NUL"
    by simp
  have m: "\<not> list_ex malformed
     (fgets_lines 64 ''Name: bw\<newline>#\<newline>  0   0   0 Black\<newline>255 255 255 White\<newline>'')"
    by (simp only: palette_lines_sample) (simp add: malformed_def matched_sample)
  have c: "length (color_lines
     (fgets_lines 64 ''Name: bw\<newline>#\<newline>  0   0   0 Black\<newline>255 255 255 White\<newline>'')) \<le> 16"
    by (simp only: palette_lines_sample) (simp add: color_lines_def matched_sample)
  have m': "list_ex malformed (fgets_lines 64 ''  0   0   0 Black\<newline>255 255\<newline>'')"
    by (simp only: palette_lines_bad) (simp add: malformed_def matched_sample)
  note good = C8_read_palette
    [where fopen_r = "\<lambda>name. Some ''GIMP Palette\<newline>Name: bw\<newline>#\<newline>  0   0   0 Black\<newline>255 255 255 White\<newline>''"
       and file_name = "''bw.gpl''" and bufsiz = 64
       and body = "''Name: bw\<newline>#\<newline>  0   0   0 Black\<newline>255 255 255 White\<newline>''",
     OF o p l, THEN conjunct2, THEN conjunct2, THEN conjunct2,
     THEN mp, OF conjI [OF n conjI [OF m c]]]
  note bad = C8_read_palette
    [where fopen_r = "\<lambda>name. Some ''GIMP Palette\<newline>  0   0   0 Black\<newline>255 255\<newline>''"
       and file_name = "''bad.gpl''" and bufsiz = 64
       and body = "''  0   0   0 Black\<newline>255 255\<newline>''",
     OF o' p l, THEN conjunct1, THEN mp, OF m']
  show ?thesis
    using o p l n m c good palette_sample o' m' bad by (intro conjI)
qed

section \<open>The capacity check of \<open>parse_image\<close>\<close>

lemma length_fgets_store:
  "length l < length buffer \<Longrightarrow> length (fgets_store l buffer) = length buffer"
  by (simp add: fgets_store_def)

lemma token_line:
  assumes "length buffer = BUFSIZ" and "rd cmap 1 = Some t" and "k \<le> MAX_IMAGE_SIZE"
  shows "parse_image_loop (''1,\<newline>'' # image_file) buffer img k cmap 0 =
         parse_image_loop image_file (fgets_store ''1,\<newline>'' buffer) (img[k := t]) (k + 1) cmap 0"
proof -
  define buffer1 where "buffer1 = fgets_store ''1,\<newline>'' buffer"
  define rest where "rest = drop (length ''1,\<newline>'' + 1) buffer"
  have b: "buffer1 = ''1,\<newline>'' @ [NUL] @ rest"
    by (simp add: buffer1_def fgets_store_def rest_def)
  have len: "length buffer1 = 8192"
    using assms(1) by (simp add: buffer1_def length_fgets_store BUFSIZ_def)
  have str: "\<not> strstr (cstr buffer1) ''};''"
    by (simp add: b cstr_def NUL_def)
  have r0: "rd buffer1 0 = Some CHR ''1''" and r1: "rd buffer1 (Suc 0) = Some CHR '',''"
    and r2: "rd buffer1 2 = Some newline"
    by (simp_all add: rd_def len) (simp_all add: b newline_def)
  have tok: "strtoul_at buffer1 0 0 = Some (1, 1, 0)"
    by (simp add: strtoul_at_def len) (simp add: b isdigit_def decimal_def digit_value_def
          ULONG_MAX_def)
  have r2': "rd buffer1 (Suc (Suc 0)) = Some newline"
    using r2 by (simp add: numeral_2_eq_2)
  have s2: "scan_line buffer1 (Suc (Suc 0)) img' k' cmap 0 = Line_end 2 img' k'" for img' k'
    by (subst scan_line.simps) (simp add: r2')
  have s1: "scan_line buffer1 (Suc 0) img' k' cmap 0 = Line_end 2 img' k'" for img' k'
    by (subst scan_line.simps) (simp add: r1 s2 newline_def BUFSIZ_def isdigit_def)
  have s0: "scan_line buffer1 0 img k cmap 0 = Line_end 2 (img[k := t]) (k + 1)"
    using assms(2,3)
    by (subst scan_line.simps) (simp add: r0 tok s1 newline_def BUFSIZ_def isdigit_def)
  show ?thesis
    using str by (simp add: parse_image_loop.simps buffer1_def [symmetric] s0 r2)
qed

lemma token_lines:
  "length buffer = BUFSIZ \<Longrightarrow> rd cmap 1 = Some t \<Longrightarrow> k + n \<le> MAX_IMAGE_SIZE + 1 \<Longrightarrow>
   \<exists>buffer' img'. length buffer' = BUFSIZ \<and>
     parse_image_loop (replicate n ''1,\<newline>'' @ image_file) buffer img k cmap 0 =
     parse_image_loop image_file buffer' img' (k + n) cmap 0"
proof (induction n arbitrary: buffer img k)
  case 0
  then show ?case by auto
next
  case (Suc n)
  have k: "k \<le> MAX_IMAGE_SIZE"
    using Suc.prems(3) by simp
  have len: "length (fgets_store ''1,\<newline>'' buffer) = BUFSIZ"
    using Suc.prems(1) by (simp add: length_fgets_store BUFSIZ_def)
  have "k + 1 + n \<le> MAX_IMAGE_SIZE + 1"
    using Suc.prems(3) by simp
  from Suc.IH [OF len Suc.prems(2) this, of "img[k := t]"]
  show ?case
    by (simp add: token_line [OF Suc.prems(1,2) k])
qed

lemma last_line:
  "length buffer = BUFSIZ \<Longrightarrow>
   parse_image_loop [''};\<newline>''] buffer img k cmap 0 = Some (k, None, img)"
  by (simp add: parse_image_loop.simps fgets_store_def cstr_def NUL_def)

lemma late_line:
  assumes "length buffer = BUFSIZ" and "MAX_IMAGE_SIZE < k"
  shows "parse_image_loop (''1,\<newline>'' # image_file) buffer img k cmap 0 =
         Some (0, Some Too_big, img)"
proof -
  define buffer1 where "buffer1 = fgets_store ''1,\<newline>'' buffer"
  define rest where "rest = drop (length ''1,\<newline>'' + 1) buffer"
  have b: "buffer1 = ''1,\<newline>'' @ [NUL] @ rest"
    by (simp add: buffer1_def fgets_store_def rest_def)
  have len: "length buffer1 = 8192"
    using assms(1) by (simp add: buffer1_def length_fgets_store BUFSIZ_def)
  have str: "\<not> strstr (cstr buffer1) ''};''"
    by (simp add: b cstr_def NUL_def)
  have r0: "rd buffer1 0 = Some CHR ''1''"
    by (simp add: rd_def len) (simp add: b)
  have s0: "scan_line buffer1 0 img k cmap 0 = Stop Too_big img"
    using assms(2)
    by (subst scan_line.simps) (simp add: r0 newline_def BUFSIZ_def isdigit_def)
  show ?thesis
    using str by (simp add: parse_image_loop.simps buffer1_def [symmetric] s0)
qed

text \<open>
  Claim C7 does not hold of the code. The capacity check is
  \<open>image_size > MAX_IMAGE_SIZE\<close> and is made before a token is stored, so it first
  fires at the token after the 64001st. A block of 64001 tokens is accepted:
  \<open>parse_image\<close> returns 64001 with no diagnostic, the last token having been stored at
  index 64000, behind the 64000 bytes of \<open>raw_image\<close>. One token more and the
  check does fire.
\<close>
theorem C7_parse_image_capacity:
  "(\<exists>img. parse_image (replicate 64001 ''1,\<newline>'' @ [''};\<newline>'']) (replicate BUFSIZ NUL)
            (replicate MAX_IMAGE_SIZE 0) (0 # 1 # replicate 14 0) 0 =
          Some (64001, None, img)) \<and>
   (\<exists>img. parse_image (replicate 64002 ''1,\<newline>'' @ [''};\<newline>'']) (replicate BUFSIZ NUL)
            (replicate MAX_IMAGE_SIZE 0) (0 # 1 # replicate 14 0) 0 =
          Some (0, Some Too_big, img)) \<and>
   MAX_IMAGE_SIZE = MAX_COL_BYTES * 8 * MAX_ROWS \<and> MAX_IMAGE_SIZE = 64000"
proof -
  have len: "length (replicate BUFSIZ NUL) = BUFSIZ"
    by simp
  have t: "rd (0 # 1 # replicate 14 (0 :: u8)) 1 = Some 1"
    by (simp add: rd_def)
  have n: "0 + 64001 \<le> MAX_IMAGE_SIZE + 1"
    by (simp add: MAX_IMAGE_SIZE_def MAX_COL_BYTES_def MAX_ROWS_def)
  from token_lines [OF len t n, of "[''};\<newline>'']" "replicate MAX_IMAGE_SIZE 0"]
  obtain buffer' img' where b: "length buffer' = BUFSIZ"
    and p: "parse_image_loop (replicate 64001 ''1,\<newline>'' @ [''};\<newline>'']) (replicate BUFSIZ NUL)
        (replicate MAX_IMAGE_SIZE 0) 0 (0 # 1 # replicate 14 0) 0 =
      parse_image_loop [''};\<newline>''] buffer' img' (0 + 64001) (0 # 1 # replicate 14 0) 0"
    by blast
  have one: "\<exists>img. parse_image (replicate 64001 ''1,\<newline>'' @ [''};\<newline>'']) (replicate BUFSIZ NUL)
            (replicate MAX_IMAGE_SIZE 0) (0 # 1 # replicate 14 0) 0 =
          Some (64001, None, img)"
    by (simp add: parse_image_def p last_line [OF b])
  have "replicate 64002 ''1,\<newline>'' = replicate (64001 + 1) ''1,\<newline>''"
    by simp
  also have "\<dots> = replicate 64001 ''1,\<newline>'' @ replicate 1 ''1,\<newline>''"
    by (rule replicate_add)
  finally have split: "replicate 64002 ''1,\<newline>'' @ [''};\<newline>''] =
      replicate 64001 ''1,\<newline>'' @ ''1,\<newline>'' # [''};\<newline>'']"
    by simp
  from token_lines [OF len t n, of "''1,\<newline>'' # [''};\<newline>'']" "replicate MAX_IMAGE_SIZE 0"]
  obtain buffer'' img'' where b': "length buffer'' = BUFSIZ"
    and p': "parse_image_loop (replicate 64001 ''1,\<newline>'' @ ''1,\<newline>'' # [''};\<newline>''])
        (replicate BUFSIZ NUL) (replicate MAX_IMAGE_SIZE 0) 0 (0 # 1 # replicate 14 0) 0 =
      parse_image_loop (''1,\<newline>'' # [''};\<newline>'']) buffer'' img'' (0 + 64001)
        (0 # 1 # replicate 14 0) 0"
    by blast
  have late: "MAX_IMAGE_SIZE < 0 + 64001"
    by (simp add: MAX_IMAGE_SIZE_def MAX_COL_BYTES_def MAX_ROWS_def)
  have two: "\<exists>img. parse_image (replicate 64002 ''1,\<newline>'' @ [''};\<newline>'']) (replicate BUFSIZ NUL)
            (replicate MAX_IMAGE_SIZE 0) (0 # 1 # replicate 14 0) 0 =
          Some (0, Some Too_big, img)"
    unfolding split by (simp only: parse_image_def p' late_line [OF b' late]) simp
  have "MAX_IMAGE_SIZE = MAX_COL_BYTES * 8 * MAX_ROWS" and "MAX_IMAGE_SIZE = 64000"
    by (simp_all add: MAX_IMAGE_SIZE_def MAX_COL_BYTES_def MAX_ROWS_def)
  then show ?thesis
    using one two by (intro conjI)
qed

end
